theory Spec2Isabelle
  imports Main "HOL-Library.Sublist" "HOL-Library.Multiset"
begin

section \<open>Python exceptions\<close>

text \<open>
  Every raise of the modelled code is a value: a computation returns \<open>error + 'a\<close>, with
  \<open>Inl\<close> the exception. \<open>UnrecognisedSource\<close> is the \<^verbatim>\<open>Exception\<close> that
  \<^verbatim>\<open>compound_electroneg\<close> raises itself; \<open>ArithmeticError\<close> stands for the exception
  that a floating-point primitive raises.
\<close>

datatype error =
    KeyError
  | IndexError
  | NameError
  | ZeroDivisionError
  | OverflowError
  | ValueError
  | AssertionError
  | EOFError
  | ArithmeticError
  | UnrecognisedSource string

section \<open>itertools\<close>

text \<open>
  \<^verbatim>\<open>itertools.combinations(xs, r)\<close>: the \<open>r\<close>-length selections of positions of \<open>xs\<close>, in
  lexicographic order of the positions.
\<close>

fun combinations :: "'a list \<Rightarrow> nat \<Rightarrow> 'a list list" where
  "combinations xs 0 = [[]]"
| "combinations [] (Suc r) = []"
| "combinations (x # xs) (Suc r) = map ((#) x) (combinations xs r) @ combinations xs (Suc r)"

text \<open>
  \<^verbatim>\<open>itertools.combinations_with_replacement(xs, r)\<close>: as above, a position may repeat.
\<close>

fun combinations_with_replacement :: "'a list \<Rightarrow> nat \<Rightarrow> 'a list list" where
  "combinations_with_replacement xs 0 = [[]]"
| "combinations_with_replacement [] (Suc r) = []"
| "combinations_with_replacement (x # xs) (Suc r) =
     map ((#) x) (combinations_with_replacement (x # xs) r) @ combinations_with_replacement xs (Suc r)"

section \<open>examples/mixed\_ions\_on\_MP-v2.py\<close>

subsection \<open>The smact module, as the script uses it\<close>

text \<open>
  \<^verbatim>\<open>smact.Element\<close>: the three attributes the script reads. The electronegativity is only
  handed on to \<^verbatim>\<open>smact.pauling_test\<close>, so its type is left open.
\<close>

record 'e element =
  symbol :: string
  oxidation_states :: "int list"
  pauling_eneg :: 'e

text \<open>
  The module \<^verbatim>\<open>smact\<close> is not part of the sources at hand; what the script calls is taken as a
  parameter:
  \<^item> \<open>ordered_elements\<close>: the list \<^verbatim>\<open>smact.ordered_elements(1, 103)\<close>;
  \<^item> \<open>element_dictionary\<close>: the dictionary \<^verbatim>\<open>smact.element_dictionary(element_list)\<close>, which has
    an entry for every symbol of the list, read as a function on these symbols;
  \<^item> \<open>pauling_test\<close>: \<^verbatim>\<open>smact.pauling_test\<close> at the script's threshold and repeat flags;
  \<^item> \<open>charge_neutrality_iter\<close>: how many items
    \<^verbatim>\<open>smact.charge_neutrality_iter(key, threshold = neutral_stoichiometries_threshold)\<close> yields.
\<close>

record 'e smact =
  ordered_elements :: "string list"
  element_dictionary :: "string \<Rightarrow> 'e element"
  pauling_test :: "string list \<Rightarrow> int list \<Rightarrow> 'e list \<Rightarrow> bool"
  charge_neutrality_iter :: "int list \<Rightarrow> nat"

text \<open>The module-level constants of the script that the counting reads.\<close>

record config =
  max_n :: nat
  count_progress_interval :: int
  mp_use :: bool
  mp_processes :: int
  mp_chunk_size :: int

definition shipped_config :: config where
  "shipped_config =
     \<lparr>max_n = 4, count_progress_interval = 100, mp_use = True, mp_processes = 4, mp_chunk_size = 10\<rparr>"

subsection \<open>count\_element\_combination\<close>

type_synonym 'e state_tuple = "string \<times> int \<times> 'e"

definition oxidation_states_list :: "'e element list \<Rightarrow> 'e state_tuple list" where
  "oxidation_states_list element_combination =
     [(symbol el, oxidation_state, pauling_eneg el).
        el \<leftarrow> element_combination, oxidation_state \<leftarrow> oxidation_states el]"

text \<open>
  The \<^verbatim>\<open>for state_combination in ...\<close> loop with its accumulator \<^verbatim>\<open>count\<close>, here \<open>cnt\<close>. The lookup in the
  table raises \<open>KeyError\<close> for a missing key.
\<close>

fun count_states ::
  "'e smact \<Rightarrow> (int list \<rightharpoonup> int) \<Rightarrow> 'e state_tuple list list \<Rightarrow> int \<Rightarrow> error + int" where
  "count_states sm table [] cnt = Inr cnt"
| "count_states sm table (state_combination # rest) cnt =
     (let symbols = map fst state_combination;
          oxidation_states = map (\<lambda>x. fst (snd x)) state_combination;
          pauling_electronegativities = map (\<lambda>x. snd (snd x)) state_combination
      in if pauling_test sm symbols oxidation_states pauling_electronegativities
         then (case table (sort oxidation_states) of
                 None \<Rightarrow> Inl KeyError
               | Some m \<Rightarrow> count_states sm table rest (cnt + m))
         else count_states sm table rest cnt)"

definition count_element_combination ::
  "'e smact \<Rightarrow> 'e element list \<times> nat \<times> (int list \<rightharpoonup> int) \<Rightarrow> error + int" where
  "count_element_combination sm args =
     (case args of (element_combination, n, neutral_stoichiometries_lookup_table) \<Rightarrow>
        count_states sm neutral_stoichiometries_lookup_table
          (combinations (oxidation_states_list element_combination) n) 0)"

subsection \<open>The tables built before counting\<close>

text \<open>
  \<^verbatim>\<open>oxidation_states = set(...)\<close>: the set of all oxidation states of \<^verbatim>\<open>elements.values()\<close>.
  Python iterates a set in an order of its own, so the iteration order is a parameter \<open>oxs\<close>
  of the model, and \<open>set_iteration\<close> says that \<open>oxs\<close> is an iteration of that set.
\<close>

definition all_oxidation_states :: "'e smact \<Rightarrow> int list" where
  "all_oxidation_states sm =
     [oxidation_state.
        el \<leftarrow> map (element_dictionary sm) (ordered_elements sm),
        oxidation_state \<leftarrow> oxidation_states el]"

definition set_iteration :: "'e smact \<Rightarrow> int list \<Rightarrow> bool" where
  "set_iteration sm oxs \<longleftrightarrow> distinct oxs \<and> set oxs = set (all_oxidation_states sm)"

definition oxidation_state_combinations :: "int list \<Rightarrow> nat \<Rightarrow> int list list" where
  "oxidation_state_combinations oxs n = map sort (combinations_with_replacement oxs n)"

text \<open>The dictionary comprehension: a later item with the same key replaces an earlier one.\<close>

definition neutral_stoichiometries :: "'e smact \<Rightarrow> int list list \<Rightarrow> (int list \<rightharpoonup> int)" where
  "neutral_stoichiometries sm keys =
     fold (\<lambda>key table. table(key \<mapsto> int (charge_neutrality_iter sm key))) keys Map.empty"

definition combination_count :: "'e smact \<Rightarrow> nat \<Rightarrow> int" where
  "combination_count sm n =
     int (sum_list (map (\<lambda>i. length (combinations (ordered_elements sm) i)) [2..<Suc n]))"

definition combination_generator :: "'e smact \<Rightarrow> nat \<Rightarrow> 'e element list list" where
  "combination_generator sm n =
     [map (element_dictionary sm) element_combination.
        i \<leftarrow> [2..<Suc n], element_combination \<leftarrow> combinations (ordered_elements sm) i]"

subsection \<open>Summing one batch\<close>

text \<open>\<^verbatim>\<open>sum\<close> over an iterator whose items may raise: the first exception ends the sum.\<close>

fun sum_results :: "(error + int) list \<Rightarrow> error + int" where
  "sum_results [] = Inr 0"
| "sum_results (Inl e # rs) = Inl e"
| "sum_results (Inr v # rs) = (case sum_results rs of Inl e \<Rightarrow> Inl e | Inr s \<Rightarrow> Inr (v + s))"

text \<open>
  The worker pool is \<^verbatim>\<open>multiprocessing.Pool\<close> of the standard library.
  \<^verbatim>\<open>imap_unordered(f, tasks, chunksize)\<close> asserts a chunk size of at least one, cuts the tasks into
  successive chunks, has a worker map \<open>f\<close> over each chunk (an exception ends the chunk), and
  yields the chunks' results in the order the chunks complete. That order depends on the
  number of workers and on the scheduler: it is the parameter \<open>completion\<close>, and
  \<open>completion_order\<close> says that it only reorders the chunks.
\<close>

fun chunks_of :: "nat \<Rightarrow> 'a list \<Rightarrow> 'a list list" where
  "chunks_of c xs = (if c = 0 \<or> xs = [] then [] else take c xs # chunks_of c (drop c xs))"

declare chunks_of.simps [simp del]

fun mapstar :: "('a \<Rightarrow> error + int) \<Rightarrow> 'a list \<Rightarrow> error + int list" where
  "mapstar f [] = Inr []"
| "mapstar f (x # xs) =
     (case f x of
        Inl e \<Rightarrow> Inl e
      | Inr v \<Rightarrow> (case mapstar f xs of Inl e \<Rightarrow> Inl e | Inr vs \<Rightarrow> Inr (v # vs)))"

fun sum_chunks :: "(error + int list) list \<Rightarrow> error + int" where
  "sum_chunks [] = Inr 0"
| "sum_chunks (Inl e # cs) = Inl e"
| "sum_chunks (Inr vs # cs) =
     (case sum_chunks cs of Inl e \<Rightarrow> Inl e | Inr s \<Rightarrow> Inr (sum_list vs + s))"

type_synonym completion = "(error + int list) list \<Rightarrow> (error + int list) list"

definition completion_order :: "completion \<Rightarrow> bool" where
  "completion_order completion \<longleftrightarrow> (\<forall>cs. mset (completion cs) = mset cs)"

definition imap_unordered_sum ::
  "completion \<Rightarrow> int \<Rightarrow> ('a \<Rightarrow> error + int) \<Rightarrow> 'a list \<Rightarrow> error + int" where
  "imap_unordered_sum completion chunksize f tasks =
     (if chunksize < 1 then Inl AssertionError
      else sum_chunks (completion (map (mapstar f) (chunks_of (nat chunksize) tasks))))"

text \<open>The two branches of \<^verbatim>\<open>if mp_use\<close>, over the element combinations of one batch.\<close>

definition batch_count ::
  "config \<Rightarrow> completion \<Rightarrow> 'e smact \<Rightarrow> nat \<Rightarrow> (int list \<rightharpoonup> int) \<Rightarrow> 'e element list list
     \<Rightarrow> error + int" where
  "batch_count cfg completion sm n table batch =
     (if mp_use cfg
      then imap_unordered_sum completion (mp_chunk_size cfg)
             (\<lambda>element_combination. count_element_combination sm (element_combination, n, table)) batch
      else sum_results
             (map (\<lambda>element_combination. count_element_combination sm (element_combination, n, table))
                batch))"

subsection \<open>The counting loop of one value of n\<close>

text \<open>
  The first half of a pass of the loop, from \<^verbatim>\<open>iterations = min(...)\<close> to
  \<^verbatim>\<open>data_pointer = data_pointer + iterations\<close>. The state is \<^verbatim>\<open>data_pointer\<close>, \<^verbatim>\<open>count\<close> and
  \<open>gen\<close>, what the generator has not yielded yet: the pass takes \<^verbatim>\<open>iterations\<close> items from the
  generator, adds the sum of their counts and advances \<^verbatim>\<open>data_pointer\<close>.
\<close>

definition count_batch ::
  "('a list \<Rightarrow> error + int) \<Rightarrow> int \<Rightarrow> int \<Rightarrow> int \<times> int \<times> 'a list
     \<Rightarrow> error + int \<times> int \<times> 'a list" where
  "count_batch batch cc batch_size st =
     (case st of (data_pointer, cnt, gen) \<Rightarrow>
        (let iterations = min batch_size (cc - data_pointer) in
         case batch (take (nat iterations) gen) of
           Inl e \<Rightarrow> Inl e
         | Inr s \<Rightarrow> Inr (data_pointer + iterations, cnt + s, drop (nat iterations) gen)))"

text \<open>
  The second half, the progress line. It divides by \<^verbatim>\<open>float(combination_count)\<close> and then by
  \<^verbatim>\<open>data_pointer\<close>: the readings of the clock and the printed numbers are not modelled, the two
  divisions by zero are.
\<close>

definition progress_report :: "int \<Rightarrow> int \<Rightarrow> error + unit" where
  "progress_report cc data_pointer =
     (if cc = 0 then Inl ZeroDivisionError
      else if data_pointer = 0 then Inl ZeroDivisionError
      else Inr ())"

text \<open>
  The \<^verbatim>\<open>while data_pointer < combination_count\<close> loop; \<open>None\<close> is a loop that runs forever.
\<close>

partial_function (option) counting_loop ::
  "('a list \<Rightarrow> error + int) \<Rightarrow> int \<Rightarrow> int \<Rightarrow> int \<Rightarrow> int \<Rightarrow> 'a list \<Rightarrow> (error + int) option" where
  "counting_loop batch cc batch_size data_pointer cnt gen =
     (if data_pointer < cc then
        (case count_batch batch cc batch_size (data_pointer, cnt, gen) of
           Inl e \<Rightarrow> Some (Inl e)
         | Inr st \<Rightarrow>
             (case progress_report cc (fst st) of
                Inl e \<Rightarrow> Some (Inl e)
              | Inr u \<Rightarrow> counting_loop batch cc batch_size (fst st) (fst (snd st)) (snd (snd st))))
      else Some (Inr cnt))"

declare counting_loop.simps [code]

text \<open>
  One pass of the body of \<^verbatim>\<open>for n in range(2, max_n + 1)\<close>: the table, the number of element
  combinations, the batch size, the loop. The result is the count that is printed.
\<close>

definition count_round ::
  "config \<Rightarrow> completion \<Rightarrow> 'e smact \<Rightarrow> int list \<Rightarrow> nat \<Rightarrow> (error + int) option" where
  "count_round cfg completion sm oxs n =
     (let table = neutral_stoichiometries sm (oxidation_state_combinations oxs n);
          cc = combination_count sm n
      in if count_progress_interval cfg = 0 then Some (Inl ZeroDivisionError)
         else counting_loop (batch_count cfg completion sm n table) cc
                (cc div count_progress_interval cfg) 0 0 (combination_generator sm n))"

subsection \<open>The whole run\<close>

text \<open>
  \<^verbatim>\<open>thread_pool = Pool(processes = mp_processes) if mp_use else None\<close>: the pool refuses a
  number of processes below one with a \<open>ValueError\<close>.
\<close>

definition thread_pool :: "config \<Rightarrow> error + bool" where
  "thread_pool cfg =
     (if mp_use cfg then (if mp_processes cfg < 1 then Inl ValueError else Inr True) else Inr False)"

text \<open>
  The loop \<^verbatim>\<open>for n in range(2, max_n + 1)\<close>: the counts printed, in order. A round that raises
  ends the run, a round that never returns keeps the run from returning.
\<close>

fun rounds :: "(nat \<Rightarrow> (error + int) option) \<Rightarrow> nat list \<Rightarrow> (error + int list) option" where
  "rounds round [] = Some (Inr [])"
| "rounds round (n # ns) =
     (case round n of
        None \<Rightarrow> None
      | Some (Inl e) \<Rightarrow> Some (Inl e)
      | Some (Inr c) \<Rightarrow>
          (case rounds round ns of
             None \<Rightarrow> None
           | Some (Inl e) \<Rightarrow> Some (Inl e)
           | Some (Inr cs) \<Rightarrow> Some (Inr (c # cs))))"

definition main :: "config \<Rightarrow> completion \<Rightarrow> 'e smact \<Rightarrow> int list \<Rightarrow> (error + int list) option" where
  "main cfg completion sm oxs =
     (case thread_pool cfg of
        Inl e \<Rightarrow> Some (Inl e)
      | Inr pool \<Rightarrow> rounds (count_round cfg completion sm oxs) [2..<Suc (max_n cfg)])"

text \<open>
  A configuration of the pool that the library accepts, with a completion order that only
  reorders; nothing is asked of a serial configuration.
\<close>

definition pool_ok :: "config \<Rightarrow> completion \<Rightarrow> bool" where
  "pool_ok cfg completion \<longleftrightarrow>
     (if mp_use cfg then 0 < mp_processes cfg \<and> 0 < mp_chunk_size cfg \<and> completion_order completion
      else True)"

subsection \<open>What the count is specified to be\<close>

text \<open>
  The specification's words: an assignment passes when the filter returns true for it, its key
  is the sorted tuple of its oxidation states, and the count of a round is the sum of the table
  entries of the passing assignments of every element combination of the sequence.
\<close>

definition passes :: "'e smact \<Rightarrow> 'e state_tuple list \<Rightarrow> bool" where
  "passes sm state_combination =
     pauling_test sm (map fst state_combination) (map (\<lambda>x. fst (snd x)) state_combination)
       (map (\<lambda>x. snd (snd x)) state_combination)"

definition assignment_key :: "'e state_tuple list \<Rightarrow> int list" where
  "assignment_key state_combination = sort (map (\<lambda>x. fst (snd x)) state_combination)"

definition specified_count :: "'e smact \<Rightarrow> (int list \<rightharpoonup> int) \<Rightarrow> nat \<Rightarrow> int" where
  "specified_count sm table n =
     (\<Sum>element_combination \<leftarrow> combination_generator sm n.
        \<Sum>state_combination \<leftarrow> combinations (oxidation_states_list element_combination) n.
          if passes sm state_combination then the (table (assignment_key state_combination)) else 0)"

text \<open>
  The specification's single unbatched pass: one sum over the full sequence, with the same
  table.
\<close>

definition unbatched_count :: "'e smact \<Rightarrow> int list \<Rightarrow> nat \<Rightarrow> error + int" where
  "unbatched_count sm oxs n =
     (let table = neutral_stoichiometries sm (oxidation_state_combinations oxs n)
      in sum_results
           (map (\<lambda>element_combination. count_element_combination sm (element_combination, n, table))
              (combination_generator sm n)))"

subsection \<open>A sample universe\<close>

text \<open>
  Modelled from the spec: \<^verbatim>\<open>smact.pauling_test\<close> and \<^verbatim>\<open>smact.charge_neutrality_iter\<close> are
  not among the sources. The sample universe below uses two stand-ins that follow sections 4.3
  and 4.2 of the specification: every cation is less electronegative than every anion, and the
  coefficient tuples over 1..8 whose weighted sum of oxidation states is zero. In every general
  theorem about the script the two functions are parameters; the stand-ins only appear in the
  concrete examples. The universe is the specification's end-to-end scenario: hydrogen with
  the oxidation states +1 and -1, oxygen with -2 (electronegativities in hundredths).
\<close>

definition sample_pauling_test :: "string list \<Rightarrow> int list \<Rightarrow> nat list \<Rightarrow> bool" where
  "sample_pauling_test symbols oxs pes =
     list_all (\<lambda>(o1, p1). list_all (\<lambda>(o2, p2). if 0 < o1 \<and> o2 < 0 then p1 < p2 else True)
                 (zip oxs pes)) (zip oxs pes)"

definition sample_neutral_count :: "int list \<Rightarrow> nat" where
  "sample_neutral_count key =
     length [cs \<leftarrow> product_lists (replicate (length key) [1, 2, 3, 4, 5, 6, 7, 8]).
               sum_list (map (\<lambda>(c, ox). c * ox) (zip cs key)) = 0]"

definition sample_H :: "nat element" where
  "sample_H = \<lparr>symbol = ''H'', oxidation_states = [1, -1], pauling_eneg = 220\<rparr>"

definition sample_O :: "nat element" where
  "sample_O = \<lparr>symbol = ''O'', oxidation_states = [-2], pauling_eneg = 344\<rparr>"

definition sample_assignment :: "nat state_tuple list" where
  "sample_assignment = [(''H'', 1, 220), (''H'', -1, 220)]"

definition sample_smact :: "nat smact" where
  "sample_smact =
     \<lparr>ordered_elements = [''H'', ''O''],
      element_dictionary = (\<lambda>s. if s = ''H'' then sample_H else sample_O),
      pauling_test = sample_pauling_test,
      charge_neutrality_iter = sample_neutral_count\<rparr>"

text \<open>
  A universe of three elements, with lithium (+1), and a configuration for it: the progress
  interval is 1, so that the batch size is the number of element combinations, there are
  rounds for \<open>n = 2\<close> and \<open>n = 3\<close>, and the pool is given one element combination per chunk.
\<close>

definition sample_Li :: "nat element" where
  "sample_Li = \<lparr>symbol = ''Li'', oxidation_states = [1], pauling_eneg = 98\<rparr>"

definition sample_hydrides :: "nat smact" where
  "sample_hydrides =
     \<lparr>ordered_elements = [''H'', ''Li'', ''O''],
      element_dictionary =
        (\<lambda>s. if s = ''H'' then sample_H else if s = ''Li'' then sample_Li else sample_O),
      pauling_test = sample_pauling_test,
      charge_neutrality_iter = sample_neutral_count\<rparr>"

definition sample_config :: config where
  "sample_config =
     \<lparr>max_n = 3, count_progress_interval = 1, mp_use = True, mp_processes = 4, mp_chunk_size = 1\<rparr>"

section \<open>read\_oxidation/smact\_lattice.py\<close>

text \<open>
  The class \<^verbatim>\<open>Lattice\<close>. The dictionary \<^verbatim>\<open>elements\<close> maps an element to its oxidation
  state; it is the list of its items in the order Python iterates it, with \<^verbatim>\<open>int(...)\<close>
  already applied to the values. A site ratio is a Python number, an integer or a float. A
  float is a value of the open type \<open>'f\<close>.
\<close>

datatype 'f pynum = PyInt int | PyFloat 'f

record 'f Lattice =
  sites :: "string list"
  site_ratios :: "'f pynum list"
  site_oxidations :: "int list list"

text \<open>
  The array \<^verbatim>\<open>charges\<close> is a numpy array of float64. What the code asks of numpy and of
  Python's floats is a parameter:
  \<^item> \<open>float64_of_int\<close>: storing a Python integer into the array, which rounds it to a double
    (\<open>None\<close>: the integer is too large for a double, \<open>OverflowError\<close>);
  \<^item> \<open>int_times_float\<close>: the product of a Python integer and a float, for which Python
    converts the integer to a double first (\<open>None\<close>: \<open>OverflowError\<close>);
  \<^item> \<open>float_zero\<close>: an entry of \<^verbatim>\<open>np.zeros\<close>;
  \<^item> \<open>sum_equals_zero\<close>: the test \<^verbatim>\<open>np.sum(charges) == 0\<close>.
\<close>

record 'f numpy =
  float64_of_int :: "int \<Rightarrow> 'f option"
  int_times_float :: "int \<Rightarrow> 'f \<Rightarrow> 'f option"
  float_zero :: 'f
  sum_equals_zero :: "'f list \<Rightarrow> bool"

type_synonym oxidation_dict = "(string \<times> int) list"

definition getitem :: "'a list \<Rightarrow> nat \<Rightarrow> error + 'a" where
  "getitem xs i = (if i < length xs then Inr (xs ! i) else Inl IndexError)"

definition lookup :: "oxidation_dict \<Rightarrow> string \<Rightarrow> error + int" where
  "lookup elements k = (case map_of elements k of None \<Rightarrow> Inl KeyError | Some v \<Rightarrow> Inr v)"

text \<open>A \<^verbatim>\<open>for\<close> loop over a list whose body may raise.\<close>

fun for_each :: "'a list \<Rightarrow> ('a \<Rightarrow> 's \<Rightarrow> error + 's) \<Rightarrow> 's \<Rightarrow> error + 's" where
  "for_each [] body s = Inr s"
| "for_each (x # xs) body s = (case body x s of Inl e \<Rightarrow> Inl e | Inr s' \<Rightarrow> for_each xs body s')"

definition check_lattice_charges ::
  "'f numpy \<Rightarrow> 'f list \<Rightarrow> string list list \<Rightarrow> string list \<Rightarrow> string list list" where
  "check_lattice_charges np charges site_elements sites' =
     (if sum_equals_zero np charges then site_elements @ [sites'] else site_elements)"

definition possible_elements :: "oxidation_dict \<Rightarrow> int list \<Rightarrow> string list" where
  "possible_elements elements oxidations =
     [element. element \<leftarrow> map fst elements, ox_state_a \<leftarrow> oxidations,
               map_of elements element = Some ox_state_a]"

text \<open>
  The value that an assignment \<^verbatim>\<open>charges[k] = int(elements[site]) * crystal.site_ratios[k]\<close>
  stores: the product of two Python integers is exact and is rounded when it is stored; the
  product with a float is a float already.
\<close>

definition stored_charge :: "'f numpy \<Rightarrow> int \<Rightarrow> 'f pynum \<Rightarrow> 'f option" where
  "stored_charge np ox ratio =
     (case ratio of
        PyInt r \<Rightarrow> float64_of_int np (ox * r)
      | PyFloat r \<Rightarrow> int_times_float np ox r)"

definition sublattice_charge ::
  "'f numpy \<Rightarrow> oxidation_dict \<Rightarrow> 'f Lattice \<Rightarrow> string \<Rightarrow> nat \<Rightarrow> error + 'f" where
  "sublattice_charge np elements crystal site k =
     (case lookup elements site of
        Inl e \<Rightarrow> Inl e
      | Inr ox \<Rightarrow>
          (case getitem (site_ratios crystal) k of
             Inl e \<Rightarrow> Inl e
           | Inr ratio \<Rightarrow>
               (case stored_charge np ox ratio of
                  None \<Rightarrow> Inl OverflowError
                | Some c \<Rightarrow> Inr c)))"

text \<open>
  The nested loops of \<^verbatim>\<open>possible_compositions\<close>, innermost first; the state is the pair of
  \<^verbatim>\<open>charges\<close> and \<^verbatim>\<open>site_elements\<close>. With tabs at multiples of eight, \<^verbatim>\<open>if 5 <= len(atom)\<close>
  stands after the loop over \<^verbatim>\<open>site_4\<close>, inside \<^verbatim>\<open>if 4 <= len(atom)\<close>. The body of the loop
  over \<^verbatim>\<open>site_5\<close> reads the name \<^verbatim>\<open>crystal_site_ratios\<close>, which is bound nowhere. Every index
  into \<^verbatim>\<open>atom\<close> and \<^verbatim>\<open>charges\<close> below is guarded by the test on \<^verbatim>\<open>len(atom)\<close> around it.
\<close>

type_synonym 'f search = "'f list \<times> string list list"

definition site_5_loop ::
  "oxidation_dict \<Rightarrow> string list list \<Rightarrow> 'f search \<Rightarrow> error + 'f search" where
  "site_5_loop elements atom =
     for_each (atom ! 4) (\<lambda>site_5 st.
       case lookup elements site_5 of Inl e \<Rightarrow> Inl e | Inr ox \<Rightarrow> Inl NameError)"

definition site_4_loop ::
  "'f numpy \<Rightarrow> oxidation_dict \<Rightarrow> 'f Lattice \<Rightarrow> string list list \<Rightarrow> string \<Rightarrow> string \<Rightarrow> string \<Rightarrow> 'f search
     \<Rightarrow> error + 'f search" where
  "site_4_loop np elements crystal atom site_1 site_2 site_3 =
     for_each (atom ! 3) (\<lambda>site_4 st. case st of (charges, site_elements) \<Rightarrow>
       (case sublattice_charge np elements crystal site_4 3 of
          Inl e \<Rightarrow> Inl e
        | Inr c \<Rightarrow>
            (let charges = charges[3 := c]
             in Inr (charges,
                     if length atom = 4
                     then check_lattice_charges np charges site_elements [site_1, site_2, site_3, site_4]
                     else site_elements))))"

definition site_3_loop ::
  "'f numpy \<Rightarrow> oxidation_dict \<Rightarrow> 'f Lattice \<Rightarrow> string list list \<Rightarrow> string \<Rightarrow> string \<Rightarrow> 'f search
     \<Rightarrow> error + 'f search" where
  "site_3_loop np elements crystal atom site_1 site_2 =
     for_each (atom ! 2) (\<lambda>site_3 st. case st of (charges, site_elements) \<Rightarrow>
       (case sublattice_charge np elements crystal site_3 2 of
          Inl e \<Rightarrow> Inl e
        | Inr c \<Rightarrow>
            (let charges = charges[2 := c];
                 site_elements =
                   (if length atom = 3
                    then check_lattice_charges np charges site_elements [site_1, site_2, site_3]
                    else site_elements)
             in if 4 \<le> length atom
                then (case site_4_loop np elements crystal atom site_1 site_2 site_3 (charges, site_elements) of
                        Inl e \<Rightarrow> Inl e
                      | Inr st' \<Rightarrow> if 5 \<le> length atom then site_5_loop elements atom st' else Inr st')
                else Inr (charges, site_elements))))"

definition site_2_loop ::
  "'f numpy \<Rightarrow> oxidation_dict \<Rightarrow> 'f Lattice \<Rightarrow> string list list \<Rightarrow> string \<Rightarrow> 'f search
     \<Rightarrow> error + 'f search" where
  "site_2_loop np elements crystal atom site_1 =
     for_each (atom ! 1) (\<lambda>site_2 st. case st of (charges, site_elements) \<Rightarrow>
       (case sublattice_charge np elements crystal site_2 1 of
          Inl e \<Rightarrow> Inl e
        | Inr c \<Rightarrow>
            (let charges = charges[1 := c];
                 site_elements =
                   (if length atom = 2
                    then check_lattice_charges np charges site_elements [site_1, site_2]
                    else site_elements)
             in if 3 \<le> length atom
                then site_3_loop np elements crystal atom site_1 site_2 (charges, site_elements)
                else Inr (charges, site_elements))))"

definition site_1_loop ::
  "'f numpy \<Rightarrow> oxidation_dict \<Rightarrow> 'f Lattice \<Rightarrow> string list list \<Rightarrow> 'f search
     \<Rightarrow> error + 'f search" where
  "site_1_loop np elements crystal atom =
     for_each (atom ! 0) (\<lambda>site_1 st. case st of (charges_before, site_elements) \<Rightarrow>
       (case sublattice_charge np elements crystal site_1 0 of
          Inl e \<Rightarrow> Inl e
        | Inr c \<Rightarrow>
            (let charges = (replicate (length atom) (float_zero np))[0 := c];
                 site_elements =
                   (if length atom = 1
                    then check_lattice_charges np charges site_elements [site_1]
                    else site_elements)
             in if 2 \<le> length atom
                then site_2_loop np elements crystal atom site_1 (charges, site_elements)
                else Inr (charges, site_elements))))"

text \<open>The \<^verbatim>\<open>while i < len(crystal.sites)\<close> loop that fills \<^verbatim>\<open>atom\<close>, over the values of \<open>i\<close>.\<close>

fun atoms_from :: "oxidation_dict \<Rightarrow> int list list \<Rightarrow> nat list \<Rightarrow> error + string list list" where
  "atoms_from elements oxidations [] = Inr []"
| "atoms_from elements oxidations (i # is) =
     (case getitem oxidations i of
        Inl e \<Rightarrow> Inl e
      | Inr oxs \<Rightarrow>
          (case atoms_from elements oxidations is of
             Inl e \<Rightarrow> Inl e
           | Inr atom \<Rightarrow> Inr (possible_elements elements oxs # atom)))"

text \<open>\<^verbatim>\<open>atom[0]\<close> raises \<open>IndexError\<close> for a crystal without sites.\<close>

definition possible_compositions ::
  "'f numpy \<Rightarrow> 'f Lattice \<Rightarrow> oxidation_dict \<Rightarrow> error + string list list" where
  "possible_compositions np crystal elements =
     (case atoms_from elements (site_oxidations crystal) [0..<length (sites crystal)] of
        Inl e \<Rightarrow> Inl e
      | Inr atom \<Rightarrow>
          if atom = [] then Inl IndexError
          else (case site_1_loop np elements crystal atom ([], []) of
                  Inl e \<Rightarrow> Inl e
                | Inr (charges, site_elements) \<Rightarrow> Inr site_elements))"

subsection \<open>What a composition is\<close>

text \<open>
  The candidates of each site (the elements whose oxidation state is one of the site's
  oxidation states), and the exact charge of a list of elements, one per site in site order:
  the sum of oxidation state times site ratio over integer ratios, \<open>None\<close> when an element has
  no entry, a ratio is a float or there are more elements than ratios.
\<close>

definition site_candidates :: "'f Lattice \<Rightarrow> oxidation_dict \<Rightarrow> string list list" where
  "site_candidates crystal elements =
     map (possible_elements elements) (take (length (sites crystal)) (site_oxidations crystal))"

fun charge_of :: "oxidation_dict \<Rightarrow> 'f pynum list \<Rightarrow> string list \<Rightarrow> int option" where
  "charge_of elements ratios [] = Some 0"
| "charge_of elements [] (s # ss) = None"
| "charge_of elements (PyFloat r # ratios) (s # ss) = None"
| "charge_of elements (PyInt r # ratios) (s # ss) =
     (case map_of elements s of
        None \<Rightarrow> None
      | Some ox \<Rightarrow> map_option (\<lambda>rest. ox * r + rest) (charge_of elements ratios ss))"

text \<open>
  The array \<^verbatim>\<open>charges\<close> that the loops hold when they test a list of elements, one per
  site, and the test of the code on it: \<^verbatim>\<open>np.sum(charges) == 0\<close>, in float64 arithmetic.
\<close>

fun charges_of :: "'f numpy \<Rightarrow> oxidation_dict \<Rightarrow> 'f pynum list \<Rightarrow> string list \<Rightarrow> 'f list option" where
  "charges_of np elements ratios [] = Some []"
| "charges_of np elements [] (s # ss) = None"
| "charges_of np elements (ratio # ratios) (s # ss) =
     (case map_of elements s of
        None \<Rightarrow> None
      | Some ox \<Rightarrow>
          (case stored_charge np ox ratio of
             None \<Rightarrow> None
           | Some c \<Rightarrow> map_option ((#) c) (charges_of np elements ratios ss)))"

definition float_neutral :: "'f numpy \<Rightarrow> oxidation_dict \<Rightarrow> 'f pynum list \<Rightarrow> string list \<Rightarrow> bool" where
  "float_neutral np elements ratios ss =
     (case charges_of np elements ratios ss of
        None \<Rightarrow> False
      | Some charges \<Rightarrow> sum_equals_zero np charges)"

text \<open>
  No assignment to the array raises: the charge of every candidate of every site is computed
  and stored without an exception.
\<close>

definition charges_fit :: "'f numpy \<Rightarrow> 'f Lattice \<Rightarrow> oxidation_dict \<Rightarrow> bool" where
  "charges_fit np crystal elements \<longleftrightarrow>
     (\<forall>(i, candidates) \<in> set (enumerate 0 (site_candidates crystal elements)).
        \<forall>s \<in> set candidates. \<not> isl (sublattice_charge np elements crystal s i))"

text \<open>
  The exact charges of a list of elements, one per site, over integer ratios, and the crystals
  whose candidate lists have integer charges of a total magnitude of at most \<open>B\<close>. A double
  holds every integer of a magnitude up to \<open>2 ^ 53\<close>, so that with this bound no product and no
  partial sum of the charges is rounded, in whatever order they are added.
\<close>

fun exact_charges :: "oxidation_dict \<Rightarrow> 'f pynum list \<Rightarrow> string list \<Rightarrow> int list option" where
  "exact_charges elements ratios [] = Some []"
| "exact_charges elements [] (s # ss) = None"
| "exact_charges elements (PyFloat r # ratios) (s # ss) = None"
| "exact_charges elements (PyInt r # ratios) (s # ss) =
     (case map_of elements s of
        None \<Rightarrow> None
      | Some ox \<Rightarrow> map_option ((#) (ox * r)) (exact_charges elements ratios ss))"

definition within_exact_range :: "int \<Rightarrow> 'f Lattice \<Rightarrow> oxidation_dict \<Rightarrow> bool" where
  "within_exact_range B crystal elements \<longleftrightarrow>
     (\<forall>ss \<in> set (product_lists (site_candidates crystal elements)).
        case exact_charges elements (site_ratios crystal) ss of
          None \<Rightarrow> False
        | Some charges \<Rightarrow> sum_list (map abs charges) \<le> B)"

text \<open>
  For the proofs: the charge that the loops store for an element at a site, the lists that the
  loops below a prefix append, and the condition that every stored charge is computed without
  an exception.
\<close>

definition site_charge :: "'f numpy \<Rightarrow> oxidation_dict \<Rightarrow> 'f Lattice \<Rightarrow> nat \<Rightarrow> string \<Rightarrow> 'f" where
  "site_charge np elements crystal i s =
     (case sublattice_charge np elements crystal s i of Inl e \<Rightarrow> float_zero np | Inr c \<Rightarrow> c)"

fun completions ::
  "(nat \<Rightarrow> string \<Rightarrow> 'f) \<Rightarrow> ('f list \<Rightarrow> bool) \<Rightarrow> nat \<Rightarrow> string list list \<Rightarrow> string list \<Rightarrow> 'f list
     \<Rightarrow> string list list" where
  "completions c test k [] p cs = (if test cs then [p] else [])"
| "completions c test k (xs # xss) p cs =
     concat (map (\<lambda>x. completions c test (Suc k) xss (p @ [x]) (cs @ [c k x])) xs)"

definition charges_ok ::
  "'f numpy \<Rightarrow> oxidation_dict \<Rightarrow> 'f Lattice \<Rightarrow> string list list \<Rightarrow> (nat \<Rightarrow> string \<Rightarrow> 'f) \<Rightarrow> bool" where
  "charges_ok np elements crystal atom c \<longleftrightarrow>
     (\<forall>i < length atom. \<forall>s \<in> set (atom ! i). sublattice_charge np elements crystal s i = Inr (c i s))"

subsection \<open>Sample crystals\<close>

text \<open>
  A stand-in for numpy on the small integers of the samples, where doubles are exact: the
  array holds the integers themselves.
\<close>

definition small_numpy :: "int numpy" where
  "small_numpy =
     \<lparr>float64_of_int = Some, int_times_float = (\<lambda>i x. Some (i * x)), float_zero = 0,
      sum_equals_zero = (\<lambda>charges. sum_list charges = 0)\<rparr>"

definition sample_elements :: oxidation_dict where
  "sample_elements = [(''Na'', 1), (''Cl'', -1), (''Mg'', 2), (''O'', -2)]"

definition rock_salt :: "int Lattice" where
  "rock_salt =
     \<lparr>sites = [''A'', ''B''], site_ratios = [PyInt 1, PyInt 1], site_oxidations = [[1], [-1]]\<rparr>"

definition five_cations :: "int Lattice" where
  "five_cations =
     \<lparr>sites = [''A'', ''B'', ''C'', ''D'', ''E''],
      site_ratios = [PyInt 1, PyInt 1, PyInt 1, PyInt 1, PyInt 1],
      site_oxidations = [[1], [1], [1], [1], [1]]\<rparr>"

section \<open>smact/properties.py: compound\_electroneg\<close>

text \<open>
  What \<^verbatim>\<open>compound_electroneg\<close> calls and does not define, as parameters: the prompt
  (\<open>None\<close>: end of input), \<^verbatim>\<open>smact.element_dictionary\<close> (\<open>None\<close>: a symbol without data),
  \<^verbatim>\<open>float\<close> on a typed string (\<open>None\<close>: no number), the two getters of \<^verbatim>\<open>smact.data\<close>, and the
  floating-point primitives. A float is a value of the open type \<open>'f\<close>, an
  \<^verbatim>\<open>Element\<close> object one of the open type \<open>'el\<close>. \<open>float_pow\<close> is \<^verbatim>\<open>x ** y\<close>, and \<open>one_over\<close>
  is \<^verbatim>\<open>1.0 / x\<close>, which raises for zero. The flag \<^verbatim>\<open>verbose\<close> only prints and is left out.
\<close>

record ('f, 'el) externals =
  raw_input :: "string \<Rightarrow> string option"
  smact_element_dictionary :: "string list \<Rightarrow> (string \<rightharpoonup> 'el) option"
  float_of_string :: "string \<Rightarrow> 'f option"
  get_mulliken :: "'el \<Rightarrow> 'f"
  get_pauling :: "'el \<Rightarrow> 'f"
  times_2_86 :: "'f \<Rightarrow> 'f"
  float_pow :: "'f \<Rightarrow> 'f \<Rightarrow> 'f option"
  numpy_product :: "'f list \<Rightarrow> 'f"
  float_sum :: "'f list \<Rightarrow> 'f"
  one_over :: "'f \<Rightarrow> 'f option"

text \<open>A stoichiometry is a number passed by the caller or a string typed at the prompt.\<close>

datatype 'f stoich = Number 'f | Typed string

text \<open>\<^verbatim>\<open>line.split(" ")\<close>\<close>

fun split_at :: "char \<Rightarrow> string \<Rightarrow> string list" where
  "split_at sep [] = [[]]"
| "split_at sep (ch # rest) =
     (if ch = sep then [] # split_at sep rest
      else (case split_at sep rest of [] \<Rightarrow> [[ch]] | w # ws \<Rightarrow> (ch # w) # ws))"

definition ask :: "('f, 'el) externals \<Rightarrow> string \<Rightarrow> error + string list" where
  "ask ext prompt =
     (case raw_input ext prompt of None \<Rightarrow> Inl EOFError | Some line \<Rightarrow> Inr (split_at CHR '' '' line))"

text \<open>\<^verbatim>\<open>map(float, stoichslist)\<close>\<close>

fun to_floats :: "('f, 'el) externals \<Rightarrow> 'f stoich list \<Rightarrow> error + 'f list" where
  "to_floats ext [] = Inr []"
| "to_floats ext (Number x # rest) =
     (case to_floats ext rest of Inl e \<Rightarrow> Inl e | Inr fs \<Rightarrow> Inr (x # fs))"
| "to_floats ext (Typed s # rest) =
     (case float_of_string ext s of
        None \<Rightarrow> Inl ValueError
      | Some x \<Rightarrow> (case to_floats ext rest of Inl e \<Rightarrow> Inl e | Inr fs \<Rightarrow> Inr (x # fs)))"

text \<open>
  Lines 127 to 144: the arguments, with the prompts for an empty \<^verbatim>\<open>elements\<close> or \<^verbatim>\<open>stoichs\<close>
  and the dictionary built from \<^verbatim>\<open>elements\<close> when none is passed (an empty dictionary, which
  Python also takes for missing, is \<open>None\<close> here).
\<close>

definition read_arguments ::
  "('f, 'el) externals \<Rightarrow> string list \<Rightarrow> 'f list \<Rightarrow> (string \<rightharpoonup> 'el) option
     \<Rightarrow> error + (string list \<times> 'f list \<times> (string \<rightharpoonup> 'el))" where
  "read_arguments ext elements stoichs elements_dict =
     (case (if elements \<noteq> [] then Inr elements else ask ext ''Enter elements (space separated): '') of
        Inl e \<Rightarrow> Inl e
      | Inr elementlist \<Rightarrow>
          (case (if stoichs \<noteq> [] then Inr (map Number stoichs)
                 else (case ask ext ''Enter stoichiometries (space separated): '' of
                         Inl e \<Rightarrow> Inl e
                       | Inr typed \<Rightarrow> Inr (map Typed typed))) of
             Inl e \<Rightarrow> Inl e
           | Inr stoichslist \<Rightarrow>
               (case (case elements_dict of
                        Some d \<Rightarrow> Inr d
                      | None \<Rightarrow>
                          (case smact_element_dictionary ext elements of
                             None \<Rightarrow> Inl KeyError
                           | Some d \<Rightarrow> Inr d)) of
                  Inl e \<Rightarrow> Inl e
                | Inr d \<Rightarrow>
                    (case to_floats ext stoichslist of
                       Inl e \<Rightarrow> Inl e
                     | Inr fs \<Rightarrow> Inr (elementlist, fs, d)))))"

text \<open>The list comprehensions of lines 148 and 151: a symbol without entry raises \<open>KeyError\<close>.\<close>

fun electronegativities ::
  "(string \<rightharpoonup> 'el) \<Rightarrow> ('el \<Rightarrow> 'f) \<Rightarrow> string list \<Rightarrow> error + 'f list" where
  "electronegativities d eneg [] = Inr []"
| "electronegativities d eneg (el # rest) =
     (case d el of
        None \<Rightarrow> Inl KeyError
      | Some element \<Rightarrow>
          (case electronegativities d eneg rest of
             Inl e \<Rightarrow> Inl e
           | Inr xs \<Rightarrow> Inr (eneg element # xs)))"

text \<open>The loop of lines 163 and 164, from index \<open>i\<close> on.\<close>

fun raise_to_stoichs ::
  "('f, 'el) externals \<Rightarrow> 'f list \<Rightarrow> 'f list \<Rightarrow> nat \<Rightarrow> error + 'f list" where
  "raise_to_stoichs ext [] stoichslist i = Inr []"
| "raise_to_stoichs ext (x # rest) stoichslist i =
     (case getitem stoichslist i of
        Inl e \<Rightarrow> Inl e
      | Inr s \<Rightarrow>
          (case float_pow ext x s of
             None \<Rightarrow> Inl ArithmeticError
           | Some y \<Rightarrow>
               (case raise_to_stoichs ext rest stoichslist (Suc i) of
                  Inl e \<Rightarrow> Inl e
                | Inr ys \<Rightarrow> Inr (y # ys))))"

text \<open>The aggregation, lines 163 to 168: the powers, their product, its root.\<close>

definition geometric_mean :: "('f, 'el) externals \<Rightarrow> 'f list \<Rightarrow> 'f list \<Rightarrow> error + 'f" where
  "geometric_mean ext elementlist stoichslist =
     (case raise_to_stoichs ext elementlist stoichslist 0 of
        Inl e \<Rightarrow> Inl e
      | Inr powers \<Rightarrow>
          (case one_over ext (float_sum ext stoichslist) of
             None \<Rightarrow> Inl ZeroDivisionError
           | Some exponent \<Rightarrow>
               (case float_pow ext (numpy_product ext powers) exponent of
                  None \<Rightarrow> Inl ArithmeticError
                | Some compelectroneg \<Rightarrow> Inr compelectroneg)))"

definition compound_electroneg ::
  "('f, 'el) externals \<Rightarrow> string list \<Rightarrow> 'f list \<Rightarrow> (string \<rightharpoonup> 'el) option \<Rightarrow> string
     \<Rightarrow> error + 'f" where
  "compound_electroneg ext elements stoichs elements_dict source =
     (case read_arguments ext elements stoichs elements_dict of
        Inl e \<Rightarrow> Inl e
      | Inr (elementlist, stoichslist, d) \<Rightarrow>
          (case (if source = ''Mulliken'' then electronegativities d (get_mulliken ext) elementlist
                 else if source = ''Pauling''
                 then electronegativities d (\<lambda>element. times_2_86 ext (get_pauling ext element)) elementlist
                 else Inl (UnrecognisedSource source)) of
             Inl e \<Rightarrow> Inl e
           | Inr enegs \<Rightarrow> geometric_mean ext enegs stoichslist))"

definition compound_electroneg_pauling ::
  "('f, 'el) externals \<Rightarrow> string list \<Rightarrow> 'f list \<Rightarrow> (string \<rightharpoonup> 'el) option \<Rightarrow> error + 'f" where
  "compound_electroneg_pauling ext elements stoichs elements_dict =
     compound_electroneg ext elements stoichs elements_dict ''Pauling''"



section \<open>Lemmas\<close>

subsection \<open>Combinations\<close>

lemma combinations_length: "ys \<in> set (combinations xs r) \<Longrightarrow> length ys = r"
  by (induction xs r arbitrary: ys rule: combinations.induct) auto

lemma combinations_subseq: "ys \<in> set (combinations xs r) \<Longrightarrow> subseq ys xs"
  by (induction xs r arbitrary: ys rule: combinations.induct) auto

lemma subseq_combinations: "subseq ys xs \<Longrightarrow> ys \<in> set (combinations xs (length ys))"
proof (induction xs arbitrary: ys)
  case Nil
  then have "ys = []" by simp
  then show ?case by simp
next
  case (Cons x xs)
  show ?case
  proof (cases ys)
    case Nil
    then show ?thesis by simp
  next
    case (Cons y ys')
    show ?thesis
    proof (cases "x = y")
      case True
      with Cons.prems Cons have "subseq ys' xs" by simp
      from Cons.IH[OF this] True Cons show ?thesis by simp
    next
      case False
      with Cons.prems Cons have "subseq ys xs" by simp
      from Cons.IH[OF this] Cons show ?thesis by simp
    qed
  qed
qed

lemma combinations_set: "set (combinations xs r) = {ys. subseq ys xs \<and> length ys = r}"
  using combinations_length combinations_subseq subseq_combinations by blast

lemma combinations_distinct: "distinct xs \<Longrightarrow> ys \<in> set (combinations xs r) \<Longrightarrow> distinct ys"
  using combinations_subseq[of ys xs r] by (auto simp: subseq_conv_nths)

lemma cwr_length: "ys \<in> set (combinations_with_replacement xs r) \<Longrightarrow> length ys = r"
  by (induction xs r arbitrary: ys rule: combinations_with_replacement.induct) auto

lemma cwr_covers:
  "length ys = r \<Longrightarrow> set ys \<subseteq> set xs \<Longrightarrow> \<exists>zs \<in> set (combinations_with_replacement xs r). mset zs = mset ys"
proof (induction xs r arbitrary: ys rule: combinations_with_replacement.induct)
  case (1 xs)
  then show ?case by simp
next
  case (2 r)
  then show ?case by simp
next
  case (3 x xs r)
  show ?case
  proof (cases "x \<in> set ys")
    case True
    have l: "length (remove1 x ys) = r" using True 3(3) by (simp add: length_remove1)
    have s: "set (remove1 x ys) \<subseteq> set (x # xs)" using 3(4) set_remove1_subset by fastforce
    from 3(1)[OF l s] obtain zs where zs: "zs \<in> set (combinations_with_replacement (x # xs) r)"
      "mset zs = mset (remove1 x ys)" by blast
    have "mset (x # zs) = mset ys" using zs(2) True by simp
    with zs(1) show ?thesis by (intro bexI[of _ "x # zs"]) auto
  next
    case False
    with 3(4) have "set ys \<subseteq> set xs" by auto
    from 3(2)[OF 3(3) this] show ?thesis by auto
  qed
qed

lemma sorted_key_present:
  assumes "length ys = n" "set ys \<subseteq> set oxs"
  shows "sort ys \<in> set (oxidation_state_combinations oxs n)"
proof -
  from cwr_covers[OF assms] obtain zs where "zs \<in> set (combinations_with_replacement oxs n)" "mset zs = mset ys"
    by blast
  then have "sort zs = sort ys" by (metis mset_sort sorted_sort properties_for_sort)
  with \<open>zs \<in> _\<close> show ?thesis unfolding oxidation_state_combinations_def by (metis image_eqI set_map)
qed

lemma neutral_stoichiometries_fold:
  "fold (\<lambda>key table. table(key \<mapsto> int (charge_neutrality_iter sm key))) keys m k =
     (if k \<in> set keys then Some (int (charge_neutrality_iter sm k)) else m k)"
  by (induction keys arbitrary: m) auto

lemma neutral_stoichiometries_lookup:
  "neutral_stoichiometries sm keys k =
     (if k \<in> set keys then Some (int (charge_neutrality_iter sm k)) else None)"
  by (simp add: neutral_stoichiometries_def neutral_stoichiometries_fold)

subsection \<open>One batch: the pool against the serial sum\<close>

lemma count_states_error: "count_states sm table scs cnt = Inl e \<Longrightarrow> e = KeyError"
  by (induction scs arbitrary: cnt) (auto simp: Let_def split: if_splits option.splits)

lemma count_element_combination_error:
  "count_element_combination sm args = Inl e \<Longrightarrow> e = KeyError"
  by (auto simp: count_element_combination_def split: prod.splits dest: count_states_error)

lemma sum_results_append:
  "sum_results (rs @ ss) =
     (case sum_results rs of Inl e \<Rightarrow> Inl e
      | Inr a \<Rightarrow> (case sum_results ss of Inl e \<Rightarrow> Inl e | Inr b \<Rightarrow> Inr (a + b)))"
  by (induction rs rule: sum_results.induct) (auto split: sum.splits)

lemma mapstar_sum:
  "(case mapstar f xs of Inl e \<Rightarrow> Inl e | Inr vs \<Rightarrow> Inr (sum_list vs)) = sum_results (map f xs)"
  by (induction xs) (auto split: sum.splits)

lemma sum_chunks_chunks_of:
  "0 < c \<Longrightarrow> sum_chunks (map (mapstar f) (chunks_of c xs)) = sum_results (map f xs)"
proof (induction c xs rule: chunks_of.induct)
  case (1 c xs)
  show ?case
  proof (cases "xs = []")
    case True
    then show ?thesis by (subst chunks_of.simps) simp
  next
    case False
    with 1 have IH: "sum_chunks (map (mapstar f) (chunks_of c (drop c xs))) = sum_results (map f (drop c xs))"
      by simp
    have "sum_results (map f xs) = sum_results (map f (take c xs) @ map f (drop c xs))"
      by (metis append_take_drop_id map_append)
    also have "\<dots> = (case sum_results (map f (take c xs)) of Inl e \<Rightarrow> Inl e
      | Inr a \<Rightarrow> (case sum_results (map f (drop c xs)) of Inl e \<Rightarrow> Inl e | Inr b \<Rightarrow> Inr (a + b)))"
      by (rule sum_results_append)
    finally have r: "sum_results (map f xs) = (case sum_results (map f (take c xs)) of Inl e \<Rightarrow> Inl e
      | Inr a \<Rightarrow> (case sum_results (map f (drop c xs)) of Inl e \<Rightarrow> Inl e | Inr b \<Rightarrow> Inr (a + b)))" .
    have l: "chunks_of c xs = take c xs # chunks_of c (drop c xs)"
      using False 1(2) by (subst chunks_of.simps) simp
    show ?thesis
      unfolding l r using IH mapstar_sum[of f "take c xs"]
      by (cases "mapstar f (take c xs)") (auto split: sum.splits)
  qed
qed

lemma sum_chunks_char:
  "\<forall>e. Inl e \<in> set cs \<longrightarrow> e = KeyError \<Longrightarrow>
   sum_chunks cs =
     (if \<exists>e. Inl e \<in> set cs then Inl KeyError
      else Inr (sum_list (map (\<lambda>c. case c of Inl e \<Rightarrow> 0 | Inr vs \<Rightarrow> sum_list vs) cs)))"
proof (induction cs rule: sum_chunks.induct)
  case 1
  then show ?case by simp
next
  case (2 e cs)
  then show ?case by auto
next
  case (3 vs cs)
  then show ?case by (auto split: sum.splits)
qed

lemma sum_chunks_mset:
  assumes "\<forall>e. Inl e \<in> set cs \<longrightarrow> e = KeyError" "mset ds = mset cs"
  shows "sum_chunks ds = sum_chunks cs"
proof -
  have s: "set ds = set cs" using assms(2) by (rule mset_eq_setD)
  have m: "sum_list (map h ds) = sum_list (map h cs)" for h :: "error + int list \<Rightarrow> int"
    using assms(2) by (metis mset_map sum_mset_sum_list)
  show ?thesis
    using assms(1) by (simp add: sum_chunks_char s m)
qed

lemma mapstar_error: "(\<And>x e. f x = Inl e \<Longrightarrow> e = KeyError) \<Longrightarrow> mapstar f xs = Inl e \<Longrightarrow> e = KeyError"
  by (induction xs) (auto split: sum.splits)

lemma imap_unordered_sum_serial:
  assumes "completion_order completion" "0 < c" "\<And>x e. f x = Inl e \<Longrightarrow> e = KeyError"
  shows "imap_unordered_sum completion c f xs = sum_results (map f xs)"
proof -
  let ?cs = "map (mapstar f) (chunks_of (nat c) xs)"
  have "\<forall>e. Inl e \<in> set ?cs \<longrightarrow> e = KeyError"
    using mapstar_error[of f] assms(3) by auto
  moreover have "mset (completion ?cs) = mset ?cs"
    using assms(1) by (simp add: completion_order_def)
  ultimately have "sum_chunks (completion ?cs) = sum_chunks ?cs" by (rule sum_chunks_mset)
  then show ?thesis using assms(2) by (simp add: imap_unordered_sum_def sum_chunks_chunks_of)
qed

lemma batch_count_serial:
  assumes "completion_order completion" "0 < mp_chunk_size cfg"
  shows "batch_count cfg completion sm n table batch = batch_count (cfg\<lparr>mp_use := False\<rparr>) completion' sm n table batch"
  using imap_unordered_sum_serial[OF assms(1,2), of "\<lambda>ec. count_element_combination sm (ec, n, table)" batch]
    count_element_combination_error[of sm]
  by (auto simp: batch_count_def)

subsection \<open>The counting loop\<close>

lemma counting_loop_unfold:
  "counting_loop batch cc batch_size data_pointer cnt gen =
     (if data_pointer < cc then
        (let iterations = min batch_size (cc - data_pointer) in
         case batch (take (nat iterations) gen) of
           Inl e \<Rightarrow> Some (Inl e)
         | Inr s \<Rightarrow>
             (if cc = 0 then Some (Inl ZeroDivisionError)
              else if data_pointer + iterations = 0 then Some (Inl ZeroDivisionError)
              else counting_loop batch cc batch_size (data_pointer + iterations) (cnt + s)
                     (drop (nat iterations) gen)))
      else Some (Inr cnt))"
proof -
  define iterations where "iterations = min batch_size (cc - data_pointer)"
  have cb: "count_batch batch cc batch_size (data_pointer, cnt, gen) =
     (case batch (take (nat iterations) gen) of
        Inl e \<Rightarrow> Inl e
      | Inr s \<Rightarrow> Inr (data_pointer + iterations, cnt + s, drop (nat iterations) gen))"
    by (simp only: count_batch_def iterations_def Let_def prod.case)
  show ?thesis
  proof (cases "batch (take (nat iterations) gen)")
    case (Inl e)
    then show ?thesis
      by (subst counting_loop.simps) (simp add: cb Let_def iterations_def[symmetric])
  next
    case (Inr s)
    then show ?thesis
      by (subst counting_loop.simps)
         (simp add: cb Let_def iterations_def[symmetric] progress_report_def)
  qed
qed

lemma count_batch_zero:
  assumes "data_pointer < cc"
  shows "count_batch batch cc 0 (data_pointer, cnt, gen) =
           (case batch [] of Inl e \<Rightarrow> Inl e | Inr s \<Rightarrow> Inr (data_pointer, cnt + s, gen))"
  using assms by (simp add: count_batch_def split: sum.splits)

lemma counting_loop_terminates:
  "0 < batch_size \<Longrightarrow> \<exists>r. counting_loop batch cc batch_size data_pointer cnt gen = Some r"
proof (induction "nat (cc - data_pointer)" arbitrary: data_pointer cnt gen rule: less_induct)
  case less
  show ?case
  proof (cases "data_pointer < cc")
    case False
    then show ?thesis by (subst counting_loop_unfold) simp
  next
    case True
    define iterations where "iterations = min batch_size (cc - data_pointer)"
    have pos: "0 < iterations" using True less.prems by (simp add: iterations_def)
    have dec: "nat (cc - (data_pointer + iterations)) < nat (cc - data_pointer)"
      using pos True by simp
    show ?thesis
    proof (cases "batch (take (nat iterations) gen)")
      case (Inl e)
      then show ?thesis using True
        by (subst counting_loop_unfold) (simp add: iterations_def Let_def)
    next
      case (Inr s)
      from less.hyps[OF dec less.prems]
      obtain r where "counting_loop batch cc batch_size (data_pointer + iterations) (cnt + s)
                     (drop (nat iterations) gen) = Some r" by blast
      then show ?thesis using True Inr
        by (subst counting_loop_unfold) (simp add: iterations_def[symmetric] Let_def)
    qed
  qed
qed

lemma counting_loop_sum:
  assumes "0 < batch_size" "0 \<le> data_pointer" "int (length gen) = cc - data_pointer"
    "\<And>xs. set xs \<subseteq> set gen \<Longrightarrow> batch xs = Inr (sum_list (map g xs))"
  shows "counting_loop batch cc batch_size data_pointer cnt gen = Some (Inr (cnt + sum_list (map g gen)))"
  using assms
proof (induction "nat (cc - data_pointer)" arbitrary: data_pointer cnt gen rule: less_induct)
  case less
  show ?case
  proof (cases "data_pointer < cc")
    case False
    with less.prems(3) have "int (length gen) \<le> 0" by linarith
    then have "gen = []" by simp
    with False show ?thesis by (subst counting_loop_unfold) simp
  next
    case True
    define iterations where "iterations = min batch_size (cc - data_pointer)"
    have pos: "0 < iterations" using True less.prems(1) by (simp add: iterations_def)
    have le: "iterations \<le> cc - data_pointer" by (simp add: iterations_def)
    have dec: "nat (cc - (data_pointer + iterations)) < nat (cc - data_pointer)"
      using pos True by simp
    have b: "batch (take (nat iterations) gen) = Inr (sum_list (map g (take (nat iterations) gen)))"
      by (rule less.prems(4)) (rule set_take_subset)
    have len: "int (length (drop (nat iterations) gen)) = cc - (data_pointer + iterations)"
      using less.prems(3) le pos by simp
    have sub: "batch xs = Inr (sum_list (map g xs))" if "set xs \<subseteq> set (drop (nat iterations) gen)" for xs
    proof (rule less.prems(4))
      show "set xs \<subseteq> set gen" using that set_drop_subset[of "nat iterations" gen] by (rule subset_trans)
    qed
    have nz: "cc \<noteq> 0" "data_pointer + iterations \<noteq> 0" using True less.prems(2) pos by auto
    have IH: "counting_loop batch cc batch_size (data_pointer + iterations)
        (cnt + sum_list (map g (take (nat iterations) gen))) (drop (nat iterations) gen)
      = Some (Inr (cnt + sum_list (map g (take (nat iterations) gen)) + sum_list (map g (drop (nat iterations) gen))))"
      using less.hyps[OF dec less.prems(1) _ len sub] less.prems(2) pos by simp
    have split: "sum_list (map g gen) = sum_list (map g (take (nat iterations) gen)) + sum_list (map g (drop (nat iterations) gen))"
      by (metis append_take_drop_id map_append sum_list_append)
    show ?thesis using True b nz IH
      by (subst counting_loop_unfold) (simp add: iterations_def[symmetric] Let_def split)
  qed
qed

lemma counting_loop_zero_batch:
  assumes "0 < cc" "batch [] = Inr s"
  shows "counting_loop batch cc 0 0 cnt gen = Some (Inl ZeroDivisionError)"
  using assms by (subst counting_loop_unfold) simp

subsection \<open>The count of one element combination\<close>

lemma count_states_sum:
  "(\<And>sc. sc \<in> set scs \<Longrightarrow> passes sm sc \<Longrightarrow> table (assignment_key sc) \<noteq> None) \<Longrightarrow>
   count_states sm table scs cnt =
     Inr (cnt + (\<Sum>sc \<leftarrow> scs. if passes sm sc then the (table (assignment_key sc)) else 0))"
proof (induction scs arbitrary: cnt)
  case Nil
  then show ?case by simp
next
  case (Cons sc scs)
  have IH: "count_states sm table scs c =
     Inr (c + (\<Sum>sc \<leftarrow> scs. if passes sm sc then the (table (assignment_key sc)) else 0))" for c
    using Cons.IH Cons.prems by simp
  show ?case
  proof (cases "passes sm sc")
    case True
    with Cons.prems[of sc] obtain m where m: "table (assignment_key sc) = Some m" by auto
    with True IH show ?thesis
      by (simp add: passes_def assignment_key_def Let_def)
  next
    case False
    with IH show ?thesis by (simp add: passes_def Let_def)
  qed
qed

lemma generator_elements:
  "ec \<in> set (combination_generator sm n) \<Longrightarrow> set ec \<subseteq> element_dictionary sm ` set (ordered_elements sm)"
proof -
  assume "ec \<in> set (combination_generator sm n)"
  then obtain i c where c: "c \<in> set (combinations (ordered_elements sm) i)" "ec = map (element_dictionary sm) c"
    by (auto simp: combination_generator_def)
  from c(1) have "subseq c (ordered_elements sm)" by (rule combinations_subseq)
  then have "set c \<subseteq> set (ordered_elements sm)" by (auto simp: subseq_conv_nths dest: in_set_nthsD)
  with c(2) show ?thesis by auto
qed

lemma assignment_states:
  assumes "set ec \<subseteq> element_dictionary sm ` set (ordered_elements sm)"
    "sc \<in> set (combinations (oxidation_states_list ec) n)"
  shows "set (map (\<lambda>x. fst (snd x)) sc) \<subseteq> set (all_oxidation_states sm)"
proof -
  have "subseq sc (oxidation_states_list ec)" using assms(2) by (rule combinations_subseq)
  then have "set sc \<subseteq> set (oxidation_states_list ec)"
    by (auto simp: subseq_conv_nths dest: in_set_nthsD)
  moreover have "fst (snd t) \<in> set (all_oxidation_states sm)" if "t \<in> set (oxidation_states_list ec)" for t
    using that assms(1) by (fastforce simp: oxidation_states_list_def all_oxidation_states_def)
  ultimately show ?thesis by auto
qed

lemma table_has_key:
  assumes "set_iteration sm oxs" "set ec \<subseteq> element_dictionary sm ` set (ordered_elements sm)"
    "sc \<in> set (combinations (oxidation_states_list ec) n)"
  shows "neutral_stoichiometries sm (oxidation_state_combinations oxs n) (assignment_key sc)
           = Some (int (charge_neutrality_iter sm (assignment_key sc)))"
proof -
  have "length (map (\<lambda>x. fst (snd x)) sc) = n" using assms(3) by (simp add: combinations_length)
  moreover have "set (map (\<lambda>x. fst (snd x)) sc) \<subseteq> set oxs"
    using assignment_states[OF assms(2,3)] assms(1) by (simp add: set_iteration_def)
  ultimately have "assignment_key sc \<in> set (oxidation_state_combinations oxs n)"
    unfolding assignment_key_def by (rule sorted_key_present)
  then show ?thesis by (simp add: neutral_stoichiometries_lookup)
qed

lemma count_element_combination_sum:
  assumes "set_iteration sm oxs" "set ec \<subseteq> element_dictionary sm ` set (ordered_elements sm)"
  shows "count_element_combination sm (ec, n, neutral_stoichiometries sm (oxidation_state_combinations oxs n)) =
     Inr (\<Sum>sc \<leftarrow> combinations (oxidation_states_list ec) n.
            if passes sm sc
            then the (neutral_stoichiometries sm (oxidation_state_combinations oxs n) (assignment_key sc))
            else 0)"
  unfolding count_element_combination_def
  using count_states_sum[of "combinations (oxidation_states_list ec) n" sm
      "neutral_stoichiometries sm (oxidation_state_combinations oxs n)" 0]
    table_has_key[OF assms]
  by simp

lemma sum_results_all_Inr:
  "(\<And>x. x \<in> set xs \<Longrightarrow> f x = Inr (g x)) \<Longrightarrow> sum_results (map f xs) = Inr (sum_list (map g xs))"
  by (induction xs) auto

lemma generator_length: "int (length (combination_generator sm n)) = combination_count sm n"
  by (simp add: combination_generator_def combination_count_def length_concat comp_def)

subsection \<open>One round\<close>

lemma batch_count_sum:
  assumes "set_iteration sm oxs" "pool_ok cfg completion"
    "set batch \<subseteq> set (combination_generator sm n)"
  shows "batch_count cfg completion sm n (neutral_stoichiometries sm (oxidation_state_combinations oxs n)) batch =
     Inr (\<Sum>ec \<leftarrow> batch. \<Sum>sc \<leftarrow> combinations (oxidation_states_list ec) n.
            if passes sm sc
            then the (neutral_stoichiometries sm (oxidation_state_combinations oxs n) (assignment_key sc))
            else 0)"
proof -
  let ?table = "neutral_stoichiometries sm (oxidation_state_combinations oxs n)"
  let ?f = "\<lambda>ec. count_element_combination sm (ec, n, ?table)"
  have ser: "sum_results (map ?f batch) =
     Inr (\<Sum>ec \<leftarrow> batch. \<Sum>sc \<leftarrow> combinations (oxidation_states_list ec) n.
            if passes sm sc then the (?table (assignment_key sc)) else 0)"
  proof (rule sum_results_all_Inr)
    fix ec assume "ec \<in> set batch"
    with assms(3) have "set ec \<subseteq> element_dictionary sm ` set (ordered_elements sm)"
      using generator_elements by blast
    from count_element_combination_sum[OF assms(1) this]
    show "?f ec = Inr (\<Sum>sc \<leftarrow> combinations (oxidation_states_list ec) n.
            if passes sm sc then the (?table (assignment_key sc)) else 0)" .
  qed
  show ?thesis
  proof (cases "mp_use cfg")
    case False
    then show ?thesis using ser by (simp add: batch_count_def)
  next
    case True
    with assms(2) have ok: "completion_order completion" "0 < mp_chunk_size cfg"
      by (simp_all add: pool_ok_def)
    have "imap_unordered_sum completion (mp_chunk_size cfg) ?f batch = sum_results (map ?f batch)"
      using ok count_element_combination_error by (rule imap_unordered_sum_serial)
    with True ser show ?thesis by (simp add: batch_count_def)
  qed
qed

lemma count_round_sum:
  assumes "set_iteration sm oxs" "pool_ok cfg completion"
    "0 < count_progress_interval cfg"
    "combination_count sm n = 0 \<or> count_progress_interval cfg \<le> combination_count sm n"
  shows "count_round cfg completion sm oxs n =
     Some (Inr (specified_count sm (neutral_stoichiometries sm (oxidation_state_combinations oxs n)) n))"
proof -
  let ?table = "neutral_stoichiometries sm (oxidation_state_combinations oxs n)"
  let ?g = "\<lambda>ec. \<Sum>sc \<leftarrow> combinations (oxidation_states_list ec) n.
            if passes sm sc then the (?table (assignment_key sc)) else 0"
  let ?cc = "combination_count sm n"
  let ?bs = "?cc div count_progress_interval cfg"
  let ?gen = "combination_generator sm n"
  have loop: "counting_loop (batch_count cfg completion sm n ?table) ?cc ?bs 0 0 ?gen
      = Some (Inr (sum_list (map ?g ?gen)))"
  proof (cases "?cc = 0")
    case True
    then have "?gen = []" using generator_length[of sm n] by simp
    with True show ?thesis by (subst counting_loop_unfold) simp
  next
    case False
    with assms(4) have "count_progress_interval cfg \<le> ?cc" by simp
    with assms(3) have "0 < ?bs" by (simp add: pos_imp_zdiv_pos_iff)
    from counting_loop_sum[of ?bs 0 ?gen ?cc "batch_count cfg completion sm n ?table" ?g 0, OF this]
      generator_length[of sm n] batch_count_sum[OF assms(1,2)]
    show ?thesis by simp
  qed
  show ?thesis
    using assms(3) loop by (simp add: count_round_def Let_def specified_count_def)
qed

lemma count_round_terminates:
  assumes "0 < count_progress_interval cfg" "count_progress_interval cfg \<le> combination_count sm n"
  shows "\<exists>r. count_round cfg completion sm oxs n = Some r"
proof -
  have "0 < combination_count sm n div count_progress_interval cfg"
    using assms by (simp add: pos_imp_zdiv_pos_iff)
  from counting_loop_terminates[OF this] assms(1) show ?thesis
    by (simp add: count_round_def Let_def)
qed

lemma batch_count_empty:
  "pool_ok cfg completion \<Longrightarrow> batch_count cfg completion sm n table [] = Inr 0"
proof -
  assume ok: "pool_ok cfg completion"
  show ?thesis
  proof (cases "mp_use cfg")
    case False
    then show ?thesis by (simp add: batch_count_def)
  next
    case True
    with ok have c: "completion_order completion" "0 < mp_chunk_size cfg" by (simp_all add: pool_ok_def)
    from c(1) have "mset (completion []) = mset []" unfolding completion_order_def by blast
    then have "completion [] = []" by simp
    with True c(2) show ?thesis
      by (simp add: batch_count_def imap_unordered_sum_def chunks_of.simps)
  qed
qed

lemma count_round_small:
  assumes "pool_ok cfg completion" "0 < combination_count sm n"
    "combination_count sm n < count_progress_interval cfg"
  shows "count_round cfg completion sm oxs n = Some (Inl ZeroDivisionError)"
proof -
  have z: "combination_count sm n div count_progress_interval cfg = 0"
    using assms(2,3) by (simp add: div_pos_pos_trivial)
  have nz: "count_progress_interval cfg \<noteq> 0" using assms(2,3) by simp
  show ?thesis
    using counting_loop_zero_batch[OF assms(2),
        of "batch_count cfg completion sm n (neutral_stoichiometries sm (oxidation_state_combinations oxs n))" 0
           0 "combination_generator sm n"]
      batch_count_empty[OF assms(1), of sm n "neutral_stoichiometries sm (oxidation_state_combinations oxs n)"] nz
    by (simp add: count_round_def Let_def z)
qed

lemma count_round_parallel_serial:
  assumes "pool_ok cfg completion"
  shows "count_round cfg completion sm oxs n = count_round (cfg\<lparr>mp_use := False\<rparr>) completion' sm oxs n"
proof (cases "mp_use cfg")
  case False
  have eq: "batch_count cfg completion sm n = batch_count (cfg\<lparr>mp_use := False\<rparr>) completion' sm n"
    using False by (auto simp: batch_count_def fun_eq_iff)
  show ?thesis unfolding count_round_def eq Let_def by simp
next
  case True
  with assms have ok: "completion_order completion" "0 < mp_chunk_size cfg" by (simp_all add: pool_ok_def)
  have eq: "batch_count cfg completion sm n = batch_count (cfg\<lparr>mp_use := False\<rparr>) completion' sm n"
    using batch_count_serial[OF ok] by (auto simp: fun_eq_iff)
  show ?thesis unfolding count_round_def eq Let_def by simp
qed

lemma main_parallel_serial:
  assumes "pool_ok cfg completion"
  shows "main cfg completion sm oxs = main (cfg\<lparr>mp_use := False\<rparr>) completion' sm oxs"
proof -
  have r: "count_round cfg completion sm oxs = count_round (cfg\<lparr>mp_use := False\<rparr>) completion' sm oxs"
    using count_round_parallel_serial[OF assms] by (auto simp: fun_eq_iff)
  have "thread_pool cfg = Inr (mp_use cfg)" using assms by (auto simp: thread_pool_def pool_ok_def)
  then show ?thesis by (simp add: main_def r thread_pool_def)
qed

subsection \<open>The universe of the script\<close>

lemma combinations_count: "length (combinations xs r) = length xs choose r"
  by (induction xs r rule: combinations.induct) simp_all

lemma combination_count_lower:
  assumes "2 \<le> n"
  shows "int (length (ordered_elements sm) choose 2) \<le> combination_count sm n"
proof -
  have u: "[2..<Suc n] = 2 # [3..<Suc n]"
    using assms by (simp add: upt_conv_Cons numeral_3_eq_3 numeral_2_eq_2)
  show ?thesis
    unfolding combination_count_def u by (simp add: combinations_count)
qed

lemma shipped_batch_size_positive:
  assumes "length (ordered_elements sm) = 103" "2 \<le> n"
  shows "count_progress_interval shipped_config \<le> combination_count sm n"
proof -
  have "(103::nat) choose 2 = 5253" by (simp add: choose_two)
  with combination_count_lower [OF assms(2), of sm] assms(1)
  show ?thesis by (simp add: shipped_config_def)
qed

subsection \<open>Tuples of one element in an assignment\<close>

lemma oxidation_states_list_Cons:
  "oxidation_states_list (el # ec) =
     map (\<lambda>ox. (symbol el, ox, pauling_eneg el)) (oxidation_states el) @ oxidation_states_list ec"
  by (simp add: oxidation_states_list_def)

lemma tuples_of_symbol:
  "length (filter (\<lambda>t. fst t = s) (oxidation_states_list ec)) =
     (\<Sum>el \<leftarrow> ec. if symbol el = s then length (oxidation_states el) else 0)"
proof (induction ec)
  case Nil
  then show ?case by (simp add: oxidation_states_list_def)
next
  case (Cons el ec)
  have "filter (\<lambda>t. fst t = s) (map (\<lambda>ox. (symbol el, ox, pauling_eneg el)) (oxidation_states el)) =
    (if symbol el = s then map (\<lambda>ox. (symbol el, ox, pauling_eneg el)) (oxidation_states el) else [])"
    by (induction "oxidation_states el") (auto simp: filter_map comp_def)
  with Cons show ?case by (simp add: oxidation_states_list_Cons)
qed

lemma tuples_of_element:
  "distinct (map symbol ec) \<Longrightarrow> el \<in> set ec \<Longrightarrow>
   (\<Sum>x \<leftarrow> ec. if symbol x = symbol el then length (oxidation_states x) else 0) = length (oxidation_states el)"
proof (induction ec)
  case Nil
  then show ?case by simp
next
  case (Cons a ec)
  show ?case
  proof (cases "a = el")
    case True
    have "(\<Sum>x \<leftarrow> ec. if symbol x = symbol el then length (oxidation_states x) else 0) = 0"
      using Cons.prems(1) True by (auto simp: sum_list_eq_0_iff image_iff)
    with True show ?thesis by simp
  next
    case False
    with Cons.prems have "el \<in> set ec" "symbol a \<noteq> symbol el" by auto
    with Cons show ?thesis by simp
  qed
qed

lemma assignment_bound:
  assumes "distinct (map symbol ec)" "el \<in> set ec"
    "sc \<in> set (combinations (oxidation_states_list ec) n)"
  shows "length (filter (\<lambda>t. fst t = symbol el) sc) \<le> length (oxidation_states el)"
proof -
  have "subseq sc (oxidation_states_list ec)" using assms(3) by (rule combinations_subseq)
  then have "subseq (filter (\<lambda>t. fst t = symbol el) sc) (filter (\<lambda>t. fst t = symbol el) (oxidation_states_list ec))"
    by (rule subseq_filter)
  then have "length (filter (\<lambda>t. fst t = symbol el) sc) \<le> length (filter (\<lambda>t. fst t = symbol el) (oxidation_states_list ec))"
    by (rule list_emb_length)
  then show ?thesis using tuples_of_symbol[of "symbol el" ec] tuples_of_element[OF assms(1,2)] by simp
qed

subsection \<open>The site loops\<close>

lemma for_each_collect:
  assumes "\<And>x ch se. x \<in> set xs \<Longrightarrow> I ch \<Longrightarrow> \<exists>ch'. I ch' \<and> body x (ch, se) = Inr (ch', se @ out x)"
    and "I ch"
  shows "\<exists>ch'. I ch' \<and> for_each xs body (ch, se) = Inr (ch', se @ concat (map out xs))"
  using assms
proof (induction xs arbitrary: ch se)
  case Nil
  then show ?case by simp
next
  case (Cons x xs)
  from Cons.prems(1)[of x ch se] Cons.prems(2)
  obtain ch1 where ch1: "I ch1" "body x (ch, se) = Inr (ch1, se @ out x)" by auto
  have "\<exists>ch'. I ch' \<and> for_each xs body (ch1, se @ out x) = Inr (ch', (se @ out x) @ concat (map out xs))"
    by (rule Cons.IH) (use Cons.prems(1) ch1(1) in auto)
  then show ?case using ch1(2) by auto
qed

lemma update_invariant:
  assumes "length ch = L" "take k ch = cs" "k < L"
  shows "length (ch[k := d]) = L" "take (Suc k) (ch[k := d]) = cs @ [d]"
  using assms by (auto simp: take_Suc_conv_app_nth)

lemma weaken_invariant:
  assumes "take (Suc k) ch = cs @ [d]" "length cs = k"
  shows "take k ch = cs"
proof -
  have "take k ch = take k (take (Suc k) ch)" by simp
  also have "\<dots> = cs" using assms by simp
  finally show ?thesis .
qed

lemma full_charges:
  assumes "length ch = Suc k" "take k ch = cs"
  shows "ch[k := d] = cs @ [d]"
proof -
  have "take (Suc k) (ch[k := d]) = cs @ [d]" by (rule update_invariant(2)[OF assms]) simp
  moreover have "take (Suc k) (ch[k := d]) = ch[k := d]" using assms(1) by simp
  ultimately show ?thesis by simp
qed

lemma drop_last_site: "length atom = Suc k \<Longrightarrow> drop k atom = [atom ! k]"
  by (metis Cons_nth_drop_Suc drop_all lessI order_refl)

lemma drop_site: "k < length atom \<Longrightarrow> drop k atom = atom ! k # drop (Suc k) atom"
  by (simp add: Cons_nth_drop_Suc)

lemma site_4_loop_collect:
  assumes "length atom = 4" "charges_ok np elements crystal atom c" "length ch = 4" "take 3 ch = cs"
  shows "\<exists>ch'. (length ch' = 4 \<and> take 3 ch' = cs) \<and>
           site_4_loop np elements crystal atom s1 s2 s3 (ch, se) =
             Inr (ch', se @ completions c (sum_equals_zero np) 3 (drop 3 atom) [s1, s2, s3] cs)"
proof -
  have d: "drop 3 atom = [atom ! 3]" using assms(1) by (intro drop_last_site) simp
  let ?out = "\<lambda>x. completions c (sum_equals_zero np) 4 [] [s1, s2, s3, x] (cs @ [c 3 x])"
  have "\<exists>ch'. (length ch' = 4 \<and> take 3 ch' = cs) \<and>
      for_each (atom ! 3) (\<lambda>site_4 st. case st of (charges, site_elements) \<Rightarrow>
       (case sublattice_charge np elements crystal site_4 3 of
          Inl e \<Rightarrow> Inl e
        | Inr c \<Rightarrow>
            (let charges = charges[3 := c]
             in Inr (charges,
                     if length atom = 4
                     then check_lattice_charges np charges site_elements [s1, s2, s3, site_4]
                     else site_elements)))) (ch, se) = Inr (ch', se @ concat (map ?out (atom ! 3)))"
  proof (rule for_each_collect)
    show "length ch = 4 \<and> take 3 ch = cs" using assms(3,4) by simp
  next
    fix x ch se
    assume x: "x \<in> set (atom ! 3)" and I: "length ch = 4 \<and> take 3 ch = cs"
    have sc: "sublattice_charge np elements crystal x 3 = Inr (c 3 x)"
      using assms(1,2) x by (simp add: charges_ok_def)
    have s0: "ch[3 := c 3 x] = cs @ [c 3 x]"
      using I by (intro full_charges) simp_all
    have s: "sum_equals_zero np (ch[3 := c 3 x]) = sum_equals_zero np (cs @ [c 3 x])"
      by (simp only: s0)
    show "\<exists>ch'. (length ch' = 4 \<and> take 3 ch' = cs) \<and>
        (case (ch, se) of (charges, site_elements) \<Rightarrow>
       (case sublattice_charge np elements crystal x 3 of
          Inl e \<Rightarrow> Inl e
        | Inr c \<Rightarrow>
            (let charges = charges[3 := c]
             in Inr (charges,
                     if length atom = 4
                     then check_lattice_charges np charges site_elements [s1, s2, s3, x]
                     else site_elements)))) = Inr (ch', se @ ?out x)"
      using I assms(1) by (simp add: sc s check_lattice_charges_def)
  qed
  moreover have "completions c (sum_equals_zero np) 3 (drop 3 atom) [s1, s2, s3] cs = concat (map ?out (atom ! 3))"
    by (simp add: d)
  ultimately show ?thesis unfolding site_4_loop_def by simp
qed

lemma site_3_loop_collect:
  assumes "length atom = L" "3 \<le> L" "L \<le> 4" "charges_ok np elements crystal atom c"
    "length ch = L" "take 2 ch = cs"
  shows "\<exists>ch'. (length ch' = L \<and> take 2 ch' = cs) \<and>
           site_3_loop np elements crystal atom s1 s2 (ch, se) =
             Inr (ch', se @ completions c (sum_equals_zero np) 2 (drop 2 atom) [s1, s2] cs)"
proof -
  let ?out = "\<lambda>x. completions c (sum_equals_zero np) 3 (drop 3 atom) [s1, s2, x] (cs @ [c 2 x])"
  have lcs: "length cs = 2" using assms(2,5,6) by auto
  have "\<exists>ch'. (length ch' = L \<and> take 2 ch' = cs) \<and>
      for_each (atom ! 2) (\<lambda>site_3 st. case st of (charges, site_elements) \<Rightarrow>
       (case sublattice_charge np elements crystal site_3 2 of
          Inl e \<Rightarrow> Inl e
        | Inr c \<Rightarrow>
            (let charges = charges[2 := c];
                 site_elements =
                   (if length atom = 3
                    then check_lattice_charges np charges site_elements [s1, s2, site_3]
                    else site_elements)
             in if 4 \<le> length atom
                then (case site_4_loop np elements crystal atom s1 s2 site_3 (charges, site_elements) of
                        Inl e \<Rightarrow> Inl e
                      | Inr st' \<Rightarrow> if 5 \<le> length atom then site_5_loop elements atom st' else Inr st')
                else Inr (charges, site_elements)))) (ch, se) = Inr (ch', se @ concat (map ?out (atom ! 2)))"
  proof (rule for_each_collect)
    show "length ch = L \<and> take 2 ch = cs" using assms(5,6) by simp
  next
    fix x ch se
    assume x: "x \<in> set (atom ! 2)" and I: "length ch = L \<and> take 2 ch = cs"
    have sc: "sublattice_charge np elements crystal x 2 = Inr (c 2 x)"
      using assms(1,2,4) x by (simp add: charges_ok_def)
    have upd: "length (ch[2 := c 2 x]) = L" "take 3 (ch[2 := c 2 x]) = cs @ [c 2 x]"
      using update_invariant[of ch L 2 cs "c 2 x"] I assms(2) by (simp_all add: numeral_3_eq_3)
    have keep: "take 2 (ch[2 := c 2 x]) = cs" using I by simp
    consider "L = 3" | "L = 4" using assms(2,3) by linarith
    then show "\<exists>ch'. (length ch' = L \<and> take 2 ch' = cs) \<and>
        (case (ch, se) of (charges, site_elements) \<Rightarrow>
       (case sublattice_charge np elements crystal x 2 of
          Inl e \<Rightarrow> Inl e
        | Inr c \<Rightarrow>
            (let charges = charges[2 := c];
                 site_elements =
                   (if length atom = 3
                    then check_lattice_charges np charges site_elements [s1, s2, x]
                    else site_elements)
             in if 4 \<le> length atom
                then (case site_4_loop np elements crystal atom s1 s2 x (charges, site_elements) of
                        Inl e \<Rightarrow> Inl e
                      | Inr st' \<Rightarrow> if 5 \<le> length atom then site_5_loop elements atom st' else Inr st')
                else Inr (charges, site_elements)))) = Inr (ch', se @ ?out x)"
    proof cases
      case 1
      have s0: "ch[2 := c 2 x] = cs @ [c 2 x]"
        using I 1 by (intro full_charges) simp_all
      have s: "sum_equals_zero np (ch[2 := c 2 x]) = sum_equals_zero np (cs @ [c 2 x])"
        by (simp only: s0)
      have d: "drop 3 atom = []" using assms(1) 1 by simp
      show ?thesis using 1 assms(1) upd(1) keep
        by (simp add: sc s d check_lattice_charges_def)
    next
      case 2
      from site_4_loop_collect[of atom np elements crystal c "ch[2 := c 2 x]" "cs @ [c 2 x]" s1 s2 x se]
        assms(1,4) upd 2
      obtain ch' where ch': "length ch' = 4" "take 3 ch' = cs @ [c 2 x]"
        "site_4_loop np elements crystal atom s1 s2 x (ch[2 := c 2 x], se) =
           Inr (ch', se @ completions c (sum_equals_zero np) 3 (drop 3 atom) [s1, s2, x] (cs @ [c 2 x]))"
        by auto
      have "take 2 ch' = cs" using weaken_invariant[of 2 ch' cs "c 2 x"] ch'(2) lcs
        by (simp add: numeral_3_eq_3 numeral_2_eq_2)
      then show ?thesis using 2 assms(1) ch'(1,3) by (simp add: sc)
    qed
  qed
  moreover have "completions c (sum_equals_zero np) 2 (drop 2 atom) [s1, s2] cs = concat (map ?out (atom ! 2))"
    using drop_site[of 2 atom] assms(1,2) by (simp add: numeral_3_eq_3)
  ultimately show ?thesis unfolding site_3_loop_def by simp
qed

lemma site_2_loop_collect:
  assumes "length atom = L" "2 \<le> L" "L \<le> 4" "charges_ok np elements crystal atom c"
    "length ch = L" "take 1 ch = cs"
  shows "\<exists>ch'. (length ch' = L \<and> take 1 ch' = cs) \<and>
           site_2_loop np elements crystal atom s1 (ch, se) =
             Inr (ch', se @ completions c (sum_equals_zero np) 1 (drop 1 atom) [s1] cs)"
proof -
  let ?out = "\<lambda>x. completions c (sum_equals_zero np) 2 (drop 2 atom) [s1, x] (cs @ [c 1 x])"
  have lcs: "length cs = 1" using assms(2,5,6) by auto
  have "\<exists>ch'. (length ch' = L \<and> take 1 ch' = cs) \<and>
      for_each (atom ! 1) (\<lambda>site_2 st. case st of (charges, site_elements) \<Rightarrow>
       (case sublattice_charge np elements crystal site_2 1 of
          Inl e \<Rightarrow> Inl e
        | Inr c \<Rightarrow>
            (let charges = charges[1 := c];
                 site_elements =
                   (if length atom = 2
                    then check_lattice_charges np charges site_elements [s1, site_2]
                    else site_elements)
             in if 3 \<le> length atom
                then site_3_loop np elements crystal atom s1 site_2 (charges, site_elements)
                else Inr (charges, site_elements)))) (ch, se) = Inr (ch', se @ concat (map ?out (atom ! 1)))"
  proof (rule for_each_collect)
    show "length ch = L \<and> take 1 ch = cs" using assms(5,6) by simp
  next
    fix x ch se
    assume x: "x \<in> set (atom ! 1)" and I: "length ch = L \<and> take 1 ch = cs"
    have sc: "sublattice_charge np elements crystal x 1 = Inr (c 1 x)"
      using assms(1,2,4) x by (simp add: charges_ok_def)
    have upd: "length (ch[1 := c 1 x]) = L" "take 2 (ch[1 := c 1 x]) = cs @ [c 1 x]"
      using update_invariant[of ch L 1 cs "c 1 x"] I assms(2) by (simp_all add: numeral_2_eq_2)
    have keep: "take 1 (ch[1 := c 1 x]) = cs" using I by (simp del: One_nat_def)
    consider "L = 2" | "3 \<le> L" using assms(2) by linarith
    then show "\<exists>ch'. (length ch' = L \<and> take 1 ch' = cs) \<and>
        (case (ch, se) of (charges, site_elements) \<Rightarrow>
       (case sublattice_charge np elements crystal x 1 of
          Inl e \<Rightarrow> Inl e
        | Inr c \<Rightarrow>
            (let charges = charges[1 := c];
                 site_elements =
                   (if length atom = 2
                    then check_lattice_charges np charges site_elements [s1, x]
                    else site_elements)
             in if 3 \<le> length atom
                then site_3_loop np elements crystal atom s1 x (charges, site_elements)
                else Inr (charges, site_elements)))) = Inr (ch', se @ ?out x)"
    proof cases
      case 1
      have s0: "ch[1 := c 1 x] = cs @ [c 1 x]"
        using I 1 by (intro full_charges) simp_all
      have s: "sum_equals_zero np (ch[1 := c 1 x]) = sum_equals_zero np (cs @ [c 1 x])"
        by (simp only: s0)
      have d: "drop 2 atom = []" using assms(1) 1 by simp
      show ?thesis using 1 assms(1) upd(1) keep
        by (simp add: sc s d check_lattice_charges_def del: One_nat_def)
    next
      case 2
      from site_3_loop_collect[of atom L np elements crystal c "ch[1 := c 1 x]" "cs @ [c 1 x]" s1 x se]
        assms(1,3,4) upd 2
      obtain ch' where ch': "length ch' = L" "take 2 ch' = cs @ [c 1 x]"
        "site_3_loop np elements crystal atom s1 x (ch[1 := c 1 x], se) =
           Inr (ch', se @ completions c (sum_equals_zero np) 2 (drop 2 atom) [s1, x] (cs @ [c 1 x]))"
        by auto
      have "take 1 ch' = cs" using weaken_invariant[of 1 ch' cs "c 1 x"] ch'(2) lcs
        by (simp add: numeral_2_eq_2)
      then show ?thesis using 2 assms(1) ch'(1,3) by (simp add: sc del: One_nat_def)
    qed
  qed
  moreover have "completions c (sum_equals_zero np) 1 (drop 1 atom) [s1] cs = concat (map ?out (atom ! 1))"
    using drop_site[of 1 atom] assms(1,2) by (simp add: numeral_2_eq_2)
  ultimately show ?thesis unfolding site_2_loop_def by (simp del: One_nat_def)
qed

lemma site_1_loop_collect:
  fixes np :: "'f numpy"
  assumes "length atom = L" "1 \<le> L" "L \<le> 4" "charges_ok np elements crystal atom c"
  shows "\<exists>ch'. site_1_loop np elements crystal atom (ch, se) = Inr (ch', se @ completions c (sum_equals_zero np) 0 atom [] [])"
proof -
  let ?out = "\<lambda>x. completions c (sum_equals_zero np) 1 (drop 1 atom) [x] [c 0 x]"
  have "\<exists>ch'. True \<and>
      for_each (atom ! 0) (\<lambda>site_1 st. case st of (charges_before, site_elements) \<Rightarrow>
       (case sublattice_charge np elements crystal site_1 0 of
          Inl e \<Rightarrow> Inl e
        | Inr c \<Rightarrow>
            (let charges = (replicate (length atom) (float_zero np))[0 := c];
                 site_elements =
                   (if length atom = 1
                    then check_lattice_charges np charges site_elements [site_1]
                    else site_elements)
             in if 2 \<le> length atom
                then site_2_loop np elements crystal atom site_1 (charges, site_elements)
                else Inr (charges, site_elements)))) (ch, se) = Inr (ch', se @ concat (map ?out (atom ! 0)))"
  proof (rule for_each_collect[where I = "\<lambda>ch. True"])
    show True ..
  next
    fix x and ch :: "'f list" and se
    assume x: "x \<in> set (atom ! 0)"
    have sc: "sublattice_charge np elements crystal x 0 = Inr (c 0 x)"
      using assms(1,2,4) x by (simp add: charges_ok_def)
    let ?ch = "(replicate L (float_zero np))[0 := c 0 x]"
    have upd: "length ?ch = L" "take 1 ?ch = [] @ [c 0 x]"
      using update_invariant[of "replicate L (float_zero np)" L 0 "[]" "c 0 x"] assms(2) by simp_all
    consider "L = 1" | "2 \<le> L" using assms(2) by linarith
    then show "\<exists>ch'. True \<and>
        (case (ch, se) of (charges_before, site_elements) \<Rightarrow>
       (case sublattice_charge np elements crystal x 0 of
          Inl e \<Rightarrow> Inl e
        | Inr c \<Rightarrow>
            (let charges = (replicate (length atom) (float_zero np))[0 := c];
                 site_elements =
                   (if length atom = 1
                    then check_lattice_charges np charges site_elements [x]
                    else site_elements)
             in if 2 \<le> length atom
                then site_2_loop np elements crystal atom x (charges, site_elements)
                else Inr (charges, site_elements)))) = Inr (ch', se @ ?out x)"
    proof cases
      case 1
      have d: "drop 1 atom = []" using assms(1) 1 by simp
      show ?thesis using 1 assms(1)
        by (simp add: sc d check_lattice_charges_def)
    next
      case 2
      from site_2_loop_collect[of atom L np elements crystal c ?ch "[c 0 x]" x se]
        assms(1,3,4) upd 2
      obtain ch' where ch': 
        "site_2_loop np elements crystal atom x (?ch, se) =
           Inr (ch', se @ completions c (sum_equals_zero np) 1 (drop 1 atom) [x] [c 0 x])"
        by auto
      then show ?thesis using 2 assms(1) by (simp add: sc)
    qed
  qed
  moreover have "completions c (sum_equals_zero np) 0 atom [] [] = concat (map ?out (atom ! 0))"
    using drop_site[of 0 atom] assms(1,2) by (cases atom) simp_all
  ultimately show ?thesis unfolding site_1_loop_def by simp
qed

subsection \<open>The compositions found\<close>

lemma possible_elements_key:
  "s \<in> set (possible_elements elements oxidations) \<Longrightarrow> \<exists>ox. map_of elements s = Some ox"
  by (auto simp: possible_elements_def)

lemma atoms_from_upt:
  "j \<le> length oxidations \<Longrightarrow>
   atoms_from elements oxidations [i..<j] =
     Inr (map (\<lambda>k. possible_elements elements (oxidations ! k)) [i..<j])"
proof (induction "j - i" arbitrary: i)
  case 0
  then show ?case by simp
next
  case (Suc d)
  then have "i < j" by simp
  then have u: "[i..<j] = i # [Suc i..<j]" by (rule upt_conv_Cons)
  have "atoms_from elements oxidations [Suc i..<j] =
     Inr (map (\<lambda>k. possible_elements elements (oxidations ! k)) [Suc i..<j])"
    using Suc by simp
  then show ?case using \<open>i < j\<close> Suc.prems by (simp add: u getitem_def)
qed

lemma atoms_from_candidates:
  assumes "length (sites crystal) \<le> length (site_oxidations crystal)"
  shows "atoms_from elements (site_oxidations crystal) [0..<length (sites crystal)] =
           Inr (site_candidates crystal elements)"
proof -
  have "map (\<lambda>k. possible_elements elements (site_oxidations crystal ! k)) [0..<length (sites crystal)]
      = map (possible_elements elements) (map ((!) (site_oxidations crystal)) [0..<length (sites crystal)])"
    by simp
  also have "map ((!) (site_oxidations crystal)) [0..<length (sites crystal)]
      = take (length (sites crystal)) (site_oxidations crystal)"
    using assms by (intro nth_equalityI) (simp_all del: upt_Suc)
  finally show ?thesis using atoms_from_upt[OF assms, of elements 0] by (simp add: site_candidates_def)
qed

lemma sublattice_charge_Inr:
  assumes "sublattice_charge np elements crystal s i = Inr c"
  shows "\<exists>ox. map_of elements s = Some ox \<and> i < length (site_ratios crystal)
           \<and> stored_charge np ox (site_ratios crystal ! i) = Some c"
  using assms
  by (auto simp: sublattice_charge_def lookup_def getitem_def
           split: option.splits if_splits sum.splits)

lemma candidates_charges_ok:
  assumes "charges_fit np crystal elements"
  shows "charges_ok np elements crystal (site_candidates crystal elements)
           (site_charge np elements crystal)"
  unfolding charges_ok_def
proof (intro allI impI ballI)
  fix i s
  assume i: "i < length (site_candidates crystal elements)"
    and s: "s \<in> set (site_candidates crystal elements ! i)"
  have "(i, site_candidates crystal elements ! i) \<in> set (enumerate 0 (site_candidates crystal elements))"
    using i by (simp add: in_set_enumerate_eq)
  with assms s have "\<not> isl (sublattice_charge np elements crystal s i)"
    unfolding charges_fit_def by blast
  then obtain c where "sublattice_charge np elements crystal s i = Inr c"
    by (cases "sublattice_charge np elements crystal s i") simp_all
  then show "sublattice_charge np elements crystal s i = Inr (site_charge np elements crystal i s)"
    by (simp add: site_charge_def)
qed

lemma concat_map_filter_cong:
  "(\<And>x. x \<in> set xs \<Longrightarrow> f x = g x) \<Longrightarrow> concat (map f xs) = concat (map g xs)"
  by (induction xs) auto

lemma completions_filter:
  assumes "\<forall>i < length xss. \<forall>x \<in> set (xss ! i).
             sublattice_charge np elements crystal x (k + i) = Inr (c (k + i) x)"
  shows "completions c (sum_equals_zero np) k xss p cs =
     map ((@) p) [rest \<leftarrow> product_lists xss.
        case charges_of np elements (drop k (site_ratios crystal)) rest of
          None \<Rightarrow> False
        | Some ds \<Rightarrow> sum_equals_zero np (cs @ ds)]"
  using assms
proof (induction xss arbitrary: k p cs)
  case Nil
  then show ?case by simp
next
  case (Cons xs xss)
  have here: "sublattice_charge np elements crystal x k = Inr (c k x)" if "x \<in> set xs" for x
    using Cons.prems that by fastforce
  have below: "\<forall>i < length xss. \<forall>x \<in> set (xss ! i).
      sublattice_charge np elements crystal x (Suc k + i) = Inr (c (Suc k + i) x)"
  proof (intro allI impI ballI)
    fix i x
    assume "i < length xss" "x \<in> set (xss ! i)"
    then have "Suc i < length (xs # xss)" "x \<in> set ((xs # xss) ! Suc i)" by simp_all
    with Cons.prems have "sublattice_charge np elements crystal x (k + Suc i) = Inr (c (k + Suc i) x)"
      by blast
    then show "sublattice_charge np elements crystal x (Suc k + i) = Inr (c (Suc k + i) x)" by simp
  qed
  have IH: "completions c (sum_equals_zero np) (Suc k) xss q a =
     map ((@) q) [rest \<leftarrow> product_lists xss.
        case charges_of np elements (drop (Suc k) (site_ratios crystal)) rest of
          None \<Rightarrow> False
        | Some ds \<Rightarrow> sum_equals_zero np (a @ ds)]" for q a
    by (rule Cons.IH [OF below])
  have step: "completions c (sum_equals_zero np) (Suc k) xss (p @ [x]) (cs @ [c k x])
     = map ((@) p) [rest \<leftarrow> map ((#) x) (product_lists xss).
        case charges_of np elements (drop k (site_ratios crystal)) rest of
          None \<Rightarrow> False
        | Some ds \<Rightarrow> sum_equals_zero np (cs @ ds)]"
    if "x \<in> set xs" for x
  proof -
    from sublattice_charge_Inr [OF here [OF that]]
    obtain ox where ox: "map_of elements x = Some ox" and k: "k < length (site_ratios crystal)"
      and st: "stored_charge np ox (site_ratios crystal ! k) = Some (c k x)" by blast
    have dk: "drop k (site_ratios crystal) = site_ratios crystal ! k # drop (Suc k) (site_ratios crystal)"
      using k by (simp add: Cons_nth_drop_Suc)
    have t: "(case charges_of np elements (drop k (site_ratios crystal)) (x # rest) of
                None \<Rightarrow> False
              | Some ds \<Rightarrow> sum_equals_zero np (cs @ ds))
       = (case charges_of np elements (drop (Suc k) (site_ratios crystal)) rest of
                None \<Rightarrow> False
              | Some ds \<Rightarrow> sum_equals_zero np ((cs @ [c k x]) @ ds))" for rest
      by (cases "charges_of np elements (drop (Suc k) (site_ratios crystal)) rest")
         (simp_all add: dk ox st)
    have "[rest \<leftarrow> map ((#) x) (product_lists xss).
        case charges_of np elements (drop k (site_ratios crystal)) rest of
          None \<Rightarrow> False
        | Some ds \<Rightarrow> sum_equals_zero np (cs @ ds)]
      = map ((#) x) [rest \<leftarrow> product_lists xss.
        case charges_of np elements (drop k (site_ratios crystal)) (x # rest) of
          None \<Rightarrow> False
        | Some ds \<Rightarrow> sum_equals_zero np (cs @ ds)]"
      unfolding filter_map comp_def ..
    also have "\<dots> = map ((#) x) [rest \<leftarrow> product_lists xss.
        case charges_of np elements (drop (Suc k) (site_ratios crystal)) rest of
          None \<Rightarrow> False
        | Some ds \<Rightarrow> sum_equals_zero np ((cs @ [c k x]) @ ds)]"
      unfolding t ..
    finally show ?thesis unfolding IH by simp
  qed
  have "completions c (sum_equals_zero np) k (xs # xss) p cs =
      concat (map (\<lambda>x. completions c (sum_equals_zero np) (Suc k) xss (p @ [x]) (cs @ [c k x])) xs)"
    by simp
  also have "\<dots> =
      concat (map (\<lambda>x. map ((@) p) [rest \<leftarrow> map ((#) x) (product_lists xss).
        case charges_of np elements (drop k (site_ratios crystal)) rest of
          None \<Rightarrow> False
        | Some ds \<Rightarrow> sum_equals_zero np (cs @ ds)]) xs)"
    by (rule concat_map_filter_cong) (rule step)
  also have "\<dots> = map ((@) p) [rest \<leftarrow> product_lists (xs # xss).
        case charges_of np elements (drop k (site_ratios crystal)) rest of
          None \<Rightarrow> False
        | Some ds \<Rightarrow> sum_equals_zero np (cs @ ds)]"
    unfolding product_lists.simps map_concat filter_concat map_map comp_def ..
  finally show ?case .
qed

lemma possible_compositions_char:
  assumes "1 \<le> length (sites crystal)" "length (sites crystal) \<le> 4"
    "length (sites crystal) \<le> length (site_oxidations crystal)"
    "charges_fit np crystal elements"
  shows "possible_compositions np crystal elements =
     Inr [ss \<leftarrow> product_lists (site_candidates crystal elements).
            float_neutral np elements (site_ratios crystal) ss]"
proof -
  let ?atom = "site_candidates crystal elements"
  let ?c = "site_charge np elements crystal"
  have len: "length ?atom = length (sites crystal)" using assms(3) by (simp add: site_candidates_def)
  have ne: "?atom \<noteq> []" using len assms(1) by auto
  have ok: "charges_ok np elements crystal ?atom ?c" by (rule candidates_charges_ok [OF assms(4)])
  from site_1_loop_collect[OF len assms(1,2) ok, of "[]" "[]"]
  obtain ch' where l: "site_1_loop np elements crystal ?atom ([], []) =
      Inr (ch', completions ?c (sum_equals_zero np) 0 ?atom [] [])" by auto
  have each: "\<forall>i < length ?atom. \<forall>x \<in> set (?atom ! i).
      sublattice_charge np elements crystal x (0 + i) = Inr (?c (0 + i) x)"
    using ok by (simp add: charges_ok_def)
  have "completions ?c (sum_equals_zero np) 0 ?atom [] [] =
     map ((@) []) [rest \<leftarrow> product_lists ?atom.
        case charges_of np elements (drop 0 (site_ratios crystal)) rest of
          None \<Rightarrow> False
        | Some ds \<Rightarrow> sum_equals_zero np ([] @ ds)]"
    by (rule completions_filter [OF each])
  also have "\<dots> = [ss \<leftarrow> product_lists ?atom. float_neutral np elements (site_ratios crystal) ss]"
    by (simp add: float_neutral_def map_idI cong: option.case_cong)
  finally show ?thesis
    using l ne by (simp add: possible_compositions_def atoms_from_candidates[OF assms(3)])
qed

subsection \<open>Where doubles are exact\<close>

lemma charge_of_exact_charges:
  "charge_of elements ratios ss = map_option sum_list (exact_charges elements ratios ss)"
proof (induction elements ratios ss rule: exact_charges.induct)
  case (4 elements r ratios s ss)
  then show ?case
    by (cases "map_of elements s"; cases "exact_charges elements ratios ss") simp_all
qed simp_all

lemma charges_of_exact_charges:
  assumes "\<forall>i. \<bar>i\<bar> \<le> B \<longrightarrow> float64_of_int np i = Some (repr i)"
    and "exact_charges elements ratios ss = Some cs" and "\<forall>c \<in> set cs. \<bar>c\<bar> \<le> B"
  shows "charges_of np elements ratios ss = Some (map repr cs)"
  using assms(2,3)
proof (induction elements ratios ss arbitrary: cs rule: exact_charges.induct)
  case (4 elements r ratios s ss)
  from "4.prems"(1) obtain ox ds where ox: "map_of elements s = Some ox"
    and ds: "exact_charges elements ratios ss = Some ds" and cs: "cs = ox * r # ds"
    by (auto split: option.splits)
  have "charges_of np elements ratios ss = Some (map repr ds)"
    using "4.IH" [OF ox ds] "4.prems"(2) cs by simp
  moreover have "float64_of_int np (ox * r) = Some (repr (ox * r))"
    using assms(1) "4.prems"(2) cs by simp
  ultimately show ?case by (simp add: ox cs stored_charge_def)
qed simp_all

lemma abs_le_sum_list_abs: "c \<in> set cs \<Longrightarrow> \<bar>c\<bar> \<le> sum_list (map abs cs)" for c :: int
proof (induction cs)
  case (Cons d cs)
  have "0 \<le> sum_list (map abs cs)" by (rule sum_list_nonneg) auto
  then show ?case using Cons by auto
qed simp

lemma float_neutral_exact:
  assumes "\<forall>i. \<bar>i\<bar> \<le> B \<longrightarrow> float64_of_int np i = Some (repr i)"
    and "\<forall>is. sum_list (map abs is) \<le> B \<longrightarrow> sum_equals_zero np (map repr is) = (sum_list is = 0)"
    and "within_exact_range B crystal elements"
    and "ss \<in> set (product_lists (site_candidates crystal elements))"
  shows "float_neutral np elements (site_ratios crystal) ss
           = (charge_of elements (site_ratios crystal) ss = Some 0)"
proof -
  from assms(3,4) obtain cs where cs: "exact_charges elements (site_ratios crystal) ss = Some cs"
    and b: "sum_list (map abs cs) \<le> B"
    unfolding within_exact_range_def by (fastforce split: option.splits)
  have "\<forall>c \<in> set cs. \<bar>c\<bar> \<le> B" using abs_le_sum_list_abs b by fastforce
  then have "charges_of np elements (site_ratios crystal) ss = Some (map repr cs)"
    by (rule charges_of_exact_charges [OF assms(1) cs])
  then have "float_neutral np elements (site_ratios crystal) ss = (sum_list cs = 0)"
    using assms(2) b by (simp add: float_neutral_def)
  then show ?thesis by (simp add: charge_of_exact_charges cs)
qed

subsection \<open>The selector of compound\_electroneg\<close>










section \<open>The claims\<close>

subsection \<open>The counting driver\<close>

text \<open>
  C1. For every value of \<open>n\<close>, the final count of the batch counting driver is the sum, over
  every element combination of the enumerated sequence and every \<open>n\<close>-sized combination of
  (symbol, oxidation state, electronegativity) tuples of that combination's elements, of the
  table entry keyed by the sorted oxidation states of the assignment, where an assignment
  contributes only when \<^verbatim>\<open>pauling_test\<close> returns true for it. A count is printed when the
  batch size is at least one (or there is nothing to count), the pool is one that the library
  accepts, and \<open>oxs\<close> iterates the set of oxidation states. With the 103 elements and the
  interval 100 of the script the batch size is at least one for every \<open>n\<close> from 2 on
  (\<open>shipped_batch_size_positive\<close>).
\<close>

theorem final_count_is_filtered_multiplicity_sum:
  assumes "set_iteration sm oxs" and "pool_ok cfg completion"
    and "0 < count_progress_interval cfg"
    and "combination_count sm n = 0 \<or> count_progress_interval cfg \<le> combination_count sm n"
  shows "count_round cfg completion sm oxs n =
           Some (Inr (specified_count sm
                        (neutral_stoichiometries sm (oxidation_state_combinations oxs n)) n))"
  using assms by (rule count_round_sum)

theorem final_count_is_filtered_multiplicity_sum_witness:
  "set_iteration sample_smact [1, -1, -2]
   \<and> pool_ok (shipped_config\<lparr>count_progress_interval := 1\<rparr>) rev
   \<and> 0 < count_progress_interval (shipped_config\<lparr>count_progress_interval := 1\<rparr>)
   \<and> count_progress_interval (shipped_config\<lparr>count_progress_interval := 1\<rparr>)
        \<le> combination_count sample_smact 2
   \<and> count_round (shipped_config\<lparr>count_progress_interval := 1\<rparr>) rev sample_smact [1, -1, -2] 2
        = Some (Inr 4)"
proof -
  have h1: "set_iteration sample_smact [1, -1, -2]"
    by (auto simp: set_iteration_def all_oxidation_states_def sample_smact_def sample_H_def sample_O_def)
  have h2: "pool_ok (shipped_config\<lparr>count_progress_interval := 1\<rparr>) rev"
    by (simp add: pool_ok_def shipped_config_def completion_order_def)
  have h3: "0 < count_progress_interval (shipped_config\<lparr>count_progress_interval := 1\<rparr>)"
    by simp
  have cc: "combination_count sample_smact 2 = 1"
    by code_simp
  have h4: "combination_count sample_smact 2 = 0
      \<or> count_progress_interval (shipped_config\<lparr>count_progress_interval := 1\<rparr>)
           \<le> combination_count sample_smact 2"
    by (simp add: cc)
  have v: "specified_count sample_smact
             (neutral_stoichiometries sample_smact (oxidation_state_combinations [1, -1, -2] 2)) 2 = 4"
    by code_simp
  show ?thesis
    using final_count_is_filtered_multiplicity_sum [OF h1 h2 h3 h4] h1 h2 cc by (simp add: v)
qed

text \<open>
  C2. For every value of \<open>n\<close>, the total produced with parallel execution enabled equals the
  total of the strictly sequential fallback, for every worker count and dispatch chunk size
  that the pool accepts and every order in which the chunks complete, all other configuration
  held fixed. The same holds for the whole run over the values of \<open>n\<close>.
\<close>

theorem parallel_total_equals_sequential:
  assumes "mp_use cfg" and "0 < mp_processes cfg" and "0 < mp_chunk_size cfg"
    and "completion_order completion"
  shows "count_round cfg completion sm oxs n =
           count_round (cfg\<lparr>mp_use := False\<rparr>) completion' sm oxs n
         \<and> main cfg completion sm oxs = main (cfg\<lparr>mp_use := False\<rparr>) completion' sm oxs"
proof -
  have "pool_ok cfg completion" using assms by (simp add: pool_ok_def)
  then show ?thesis
    using count_round_parallel_serial main_parallel_serial by blast
qed

theorem parallel_total_equals_sequential_witness:
  "mp_use sample_config \<and> 0 < mp_processes sample_config \<and> 0 < mp_chunk_size sample_config
   \<and> completion_order rev
   \<and> length (chunks_of (nat (mp_chunk_size sample_config)) (combination_generator sample_hydrides 2)) = 3
   \<and> count_round sample_config rev sample_hydrides [1, -1, -2] 2 =
       count_round (sample_config\<lparr>mp_use := False\<rparr>) (\<lambda>cs. cs) sample_hydrides [1, -1, -2] 2
   \<and> count_round sample_config rev sample_hydrides [1, -1, -2] 2 = Some (Inr 16)
   \<and> main sample_config rev sample_hydrides [1, -1, -2] =
       main (sample_config\<lparr>mp_use := False\<rparr>) (\<lambda>cs. cs) sample_hydrides [1, -1, -2]
   \<and> main sample_config rev sample_hydrides [1, -1, -2] = Some (Inr [16, 44])"
proof -
  have h1: "mp_use sample_config" by (simp add: sample_config_def)
  have h2: "0 < mp_processes sample_config" by (simp add: sample_config_def)
  have h3: "0 < mp_chunk_size sample_config" by (simp add: sample_config_def)
  have h4: "completion_order rev" by (simp add: completion_order_def)
  have c: "length (chunks_of (nat (mp_chunk_size sample_config))
             (combination_generator sample_hydrides 2)) = 3"
    by code_simp
  have v1: "count_round sample_config rev sample_hydrides [1, -1, -2] 2 = Some (Inr 16)"
    by code_simp
  have v2: "main sample_config rev sample_hydrides [1, -1, -2] = Some (Inr [16, 44])"
    by code_simp
  note t = parallel_total_equals_sequential
    [OF h1 h2 h3 h4, of sample_hydrides "[1, -1, -2]" 2 "\<lambda>cs. cs"]
  show ?thesis
    by (intro conjI h1 h2 h3 h4 c v1 v2 conjunct1 [OF t] conjunct2 [OF t])
qed

text \<open>
  C3. For every element universe, in particular a reduced test universe, and every \<open>n\<close>,
  processing the enumerator in fixed-size batches yields the same total as one unbatched pass
  over the full sequence. The script does not: in the universe of hydrogen and oxygen with
  \<open>n = 2\<close> there is one element combination, the batch size \<^verbatim>\<open>1 // 100\<close> is zero, the first pass
  of the loop leaves \<^verbatim>\<open>data_pointer\<close> at zero and the estimate of the remaining time divides by
  it, while the unbatched pass counts 4.
\<close>

theorem reduced_universe_batched_count_fails:
  "count_round shipped_config (\<lambda>cs. cs) sample_smact [1, -1, -2] 2 = Some (Inl ZeroDivisionError)
   \<and> unbatched_count sample_smact [1, -1, -2] 2 = Inr 4"
proof -
  have ok: "pool_ok shipped_config (\<lambda>cs. cs)"
    by (simp add: pool_ok_def shipped_config_def completion_order_def)
  have cc: "combination_count sample_smact 2 = 1"
    by code_simp
  have "count_round shipped_config (\<lambda>cs. cs) sample_smact [1, -1, -2] 2 = Some (Inl ZeroDivisionError)"
    by (rule count_round_small [OF ok]) (simp_all add: cc shipped_config_def)
  moreover have "unbatched_count sample_smact [1, -1, -2] 2 = Inr 4"
    by code_simp
  ultimately show ?thesis by simp
qed

text \<open>
  C4, as the claim states it, fails: with hydrogen (+1, -1) and oxygen (-2) the subset has two
  elements, \<open>n\<close> is two, and the assignment of the two states of hydrogen is enumerated: it
  holds hydrogen twice.
\<close>

theorem same_element_twice_counterexample:
  "length [sample_H, sample_O] = 2
   \<and> sample_assignment \<in> set (combinations (oxidation_states_list [sample_H, sample_O]) 2)
   \<and> map fst sample_assignment = [''H'', ''H'']"
  by (simp add: sample_assignment_def oxidation_states_list_def sample_H_def sample_O_def
        eval_nat_numeral)

text \<open>
  C4, amended. In the inner assignment enumeration over a fixed element subset, the
  assignments are exactly the subsequences of length \<open>n\<close> of the flattened list of tuples; an
  element (of a subset with distinct symbols) contributes to an assignment at most as many
  tuples as it has oxidation states. Different oxidation states of the same element may
  therefore co-occur whatever the size of the subset.
\<close>

theorem assignment_tuples_of_one_element:
  "(sc \<in> set (combinations (oxidation_states_list ec) n)
      \<longleftrightarrow> subseq sc (oxidation_states_list ec) \<and> length sc = n)
   \<and> (distinct (map symbol ec) \<and> el \<in> set ec \<and> sc \<in> set (combinations (oxidation_states_list ec) n)
      \<longrightarrow> length (filter (\<lambda>t. fst t = symbol el) sc) \<le> length (oxidation_states el))"
proof (intro conjI impI iffI)
  assume "sc \<in> set (combinations (oxidation_states_list ec) n)"
  then show "subseq sc (oxidation_states_list ec)" by (rule combinations_subseq)
next
  assume "sc \<in> set (combinations (oxidation_states_list ec) n)"
  then show "length sc = n" by (rule combinations_length)
next
  assume a: "subseq sc (oxidation_states_list ec) \<and> length sc = n"
  then have "sc \<in> set (combinations (oxidation_states_list ec) (length sc))"
    by (intro subseq_combinations) simp
  with a show "sc \<in> set (combinations (oxidation_states_list ec) n)" by simp
next
  assume a: "distinct (map symbol ec) \<and> el \<in> set ec
    \<and> sc \<in> set (combinations (oxidation_states_list ec) n)"
  show "length (filter (\<lambda>t. fst t = symbol el) sc) \<le> length (oxidation_states el)"
    by (rule assignment_bound [of ec el sc n]) (use a in blast)+
qed

theorem assignment_tuples_of_one_element_witness:
  "distinct (map symbol [sample_H, sample_O]) \<and> sample_H \<in> set [sample_H, sample_O]
   \<and> sample_assignment \<in> set (combinations (oxidation_states_list [sample_H, sample_O]) 2)
   \<and> subseq sample_assignment (oxidation_states_list [sample_H, sample_O])
   \<and> length (filter (\<lambda>t. fst t = symbol sample_H) sample_assignment)
        \<le> length (oxidation_states sample_H)"
proof -
  have h1: "distinct (map symbol [sample_H, sample_O])" by (simp add: sample_H_def sample_O_def)
  have h2: "sample_H \<in> set [sample_H, sample_O]" by simp
  have h3: "sample_assignment \<in> set (combinations (oxidation_states_list [sample_H, sample_O]) 2)"
    by (simp add: sample_assignment_def oxidation_states_list_def sample_H_def sample_O_def
          eval_nat_numeral)
  note t = assignment_tuples_of_one_element [of sample_assignment "[sample_H, sample_O]" 2 sample_H]
  from iffD1 [OF conjunct1 [OF t] h3]
  have s: "subseq sample_assignment (oxidation_states_list [sample_H, sample_O])"
    by (rule conjunct1)
  have b: "length (filter (\<lambda>t. fst t = symbol sample_H) sample_assignment)
        \<le> length (oxidation_states sample_H)"
    by (rule mp [OF conjunct2 [OF t]]) (intro conjI h1 h2 h3)
  from h1 h2 h3 s b show ?thesis by (intro conjI)
qed

text \<open>
  C5. For every \<open>n\<close>, when counting begins the multiplicity table has an entry for every sorted
  tuple of \<open>n\<close> oxidation states of the element universe, so that no lookup during counting
  misses a key: \<^verbatim>\<open>count_element_combination\<close> returns a count for every element combination of
  the sequence. The table is the one value that \<open>count_round\<close> builds before its loop.
\<close>

theorem table_has_every_key:
  assumes "set_iteration sm oxs"
  shows "(\<forall>ys. length ys = n \<and> set ys \<subseteq> set (all_oxidation_states sm)
            \<longrightarrow> sort ys \<in> dom (neutral_stoichiometries sm (oxidation_state_combinations oxs n)))
         \<and> (\<forall>ec \<in> set (combination_generator sm n).
               \<exists>c. count_element_combination sm
                      (ec, n, neutral_stoichiometries sm (oxidation_state_combinations oxs n)) = Inr c)"
proof (intro conjI allI impI ballI)
  fix ys
  assume "length ys = n \<and> set ys \<subseteq> set (all_oxidation_states sm)"
  with assms have "sort ys \<in> set (oxidation_state_combinations oxs n)"
    by (intro sorted_key_present) (simp_all add: set_iteration_def)
  then show "sort ys \<in> dom (neutral_stoichiometries sm (oxidation_state_combinations oxs n))"
    by (simp add: dom_def neutral_stoichiometries_lookup)
next
  fix ec
  assume "ec \<in> set (combination_generator sm n)"
  then have "set ec \<subseteq> element_dictionary sm ` set (ordered_elements sm)"
    by (rule generator_elements)
  from count_element_combination_sum [OF assms this]
  show "\<exists>c. count_element_combination sm
               (ec, n, neutral_stoichiometries sm (oxidation_state_combinations oxs n)) = Inr c"
    by blast
qed

theorem table_has_every_key_witness:
  "set_iteration sample_smact [1, -1, -2]
   \<and> length [1, -2 :: int] = 2 \<and> set [1, -2] \<subseteq> set (all_oxidation_states sample_smact)
   \<and> sort [1, -2]
       \<in> dom (neutral_stoichiometries sample_smact (oxidation_state_combinations [1, -1, -2] 2))
   \<and> [sample_H, sample_O] \<in> set (combination_generator sample_smact 2)
   \<and> (\<exists>c. count_element_combination sample_smact
             ([sample_H, sample_O], 2,
              neutral_stoichiometries sample_smact (oxidation_state_combinations [1, -1, -2] 2)) = Inr c)"
proof -
  have h: "set_iteration sample_smact [1, -1, -2]"
    by (auto simp: set_iteration_def all_oxidation_states_def sample_smact_def sample_H_def sample_O_def)
  have k: "length [1, -2 :: int] = 2 \<and> set [1, -2] \<subseteq> set (all_oxidation_states sample_smact)"
    by (simp add: all_oxidation_states_def sample_smact_def sample_H_def sample_O_def)
  have g: "[sample_H, sample_O] \<in> set (combination_generator sample_smact 2)"
    by (simp add: combination_generator_def sample_smact_def eval_nat_numeral)
  show ?thesis
    using table_has_every_key [OF h, of 2] h k g by blast
qed

text \<open>
  C9, as the claim states it, fails in its second half: with one element combination and a
  progress interval of 100 the batch size is zero, and the loop does not run forever: the
  round returns, with an exception.
\<close>

theorem zero_batch_size_counterexample:
  "0 < combination_count sample_smact 3
   \<and> combination_count sample_smact 3 < count_progress_interval (shipped_config\<lparr>mp_use := False\<rparr>)
   \<and> count_round (shipped_config\<lparr>mp_use := False\<rparr>) (\<lambda>cs. cs) sample_smact [1, -1, -2] 3
       = Some (Inl ZeroDivisionError)"
proof -
  have ok: "pool_ok (shipped_config\<lparr>mp_use := False\<rparr>) (\<lambda>cs. cs)"
    by (simp add: pool_ok_def)
  have cc: "combination_count sample_smact 3 = 1"
    by code_simp
  have "count_round (shipped_config\<lparr>mp_use := False\<rparr>) (\<lambda>cs. cs) sample_smact [1, -1, -2] 3
      = Some (Inl ZeroDivisionError)"
    by (rule count_round_small [OF ok]) (simp_all add: cc shipped_config_def)
  then show ?thesis by (simp add: cc shipped_config_def)
qed

text \<open>
  C9, amended. The counting loop of one \<open>n\<close> ends (with a count or an exception) whenever the
  progress interval is positive and the number of element combinations is at least the
  interval, so that the batch size is at least one. When the number of combinations is
  positive and smaller than the interval, the batch size is zero, and a pass of the loop
  takes no item from the generator, adds the sum of an empty batch to the count and leaves
  \<^verbatim>\<open>data_pointer\<close> where it was.
\<close>

theorem counting_loop_ends:
  "(0 < count_progress_interval cfg \<and> count_progress_interval cfg \<le> combination_count sm n
      \<longrightarrow> (\<exists>r. count_round cfg completion sm oxs n = Some r))
   \<and> (0 < combination_count sm n \<and> combination_count sm n < count_progress_interval cfg
        \<and> data_pointer < combination_count sm n
      \<longrightarrow> combination_count sm n div count_progress_interval cfg = 0
          \<and> count_batch batch (combination_count sm n)
                (combination_count sm n div count_progress_interval cfg) (data_pointer, cnt, gen)
              = (case batch [] of
                   Inl e \<Rightarrow> Inl e
                 | Inr s \<Rightarrow> Inr (data_pointer, cnt + s, gen)))"
proof (intro conjI impI)
  assume "0 < count_progress_interval cfg \<and> count_progress_interval cfg \<le> combination_count sm n"
  then show "\<exists>r. count_round cfg completion sm oxs n = Some r"
    using count_round_terminates by blast
next
  assume a: "0 < combination_count sm n \<and> combination_count sm n < count_progress_interval cfg
        \<and> data_pointer < combination_count sm n"
  then show z: "combination_count sm n div count_progress_interval cfg = 0"
    by (simp add: div_pos_pos_trivial)
  from a have "data_pointer < combination_count sm n" by simp
  then show "count_batch batch (combination_count sm n)
                (combination_count sm n div count_progress_interval cfg) (data_pointer, cnt, gen)
              = (case batch [] of
                   Inl e \<Rightarrow> Inl e
                 | Inr s \<Rightarrow> Inr (data_pointer, cnt + s, gen))"
    unfolding z by (rule count_batch_zero)
qed

theorem counting_loop_ends_witness:
  "0 < count_progress_interval sample_config
   \<and> count_progress_interval sample_config \<le> combination_count sample_hydrides 2
   \<and> (\<exists>r. count_round sample_config rev sample_hydrides [1, -1, -2] 2 = Some r)
   \<and> 0 < combination_count sample_smact 2
   \<and> combination_count sample_smact 2 < count_progress_interval shipped_config
   \<and> 0 < combination_count sample_smact 2
   \<and> combination_count sample_smact 2 div count_progress_interval shipped_config = 0
   \<and> count_batch
         (batch_count shipped_config rev sample_smact 2
            (neutral_stoichiometries sample_smact (oxidation_state_combinations [1, -1, -2] 2)))
         (combination_count sample_smact 2)
         (combination_count sample_smact 2 div count_progress_interval shipped_config)
         (0, 0, combination_generator sample_smact 2)
       = Inr (0, 0, combination_generator sample_smact 2)"
proof -
  have i1: "0 < count_progress_interval sample_config" by (simp add: sample_config_def)
  have i2: "count_progress_interval sample_config \<le> combination_count sample_hydrides 2"
    by code_simp
  have cc: "combination_count sample_smact 2 = 1"
    by code_simp
  have p: "0 < combination_count sample_smact 2" by (simp add: cc)
  have s: "combination_count sample_smact 2 < count_progress_interval shipped_config"
    by (simp add: cc shipped_config_def)
  have b: "batch_count shipped_config rev sample_smact 2
            (neutral_stoichiometries sample_smact (oxidation_state_combinations [1, -1, -2] 2)) []
         = Inr 0"
    by (rule batch_count_empty) (simp add: pool_ok_def shipped_config_def completion_order_def)
  note t1 = counting_loop_ends
    [where cfg = sample_config and sm = sample_hydrides and n = 2 and completion = rev
       and oxs = "[1, -1, -2]"]
  note t2 = counting_loop_ends
    [where cfg = shipped_config and sm = sample_smact and n = 2 and data_pointer = 0 and cnt = 0
       and gen = "combination_generator sample_smact 2"
       and batch = "batch_count shipped_config rev sample_smact 2
            (neutral_stoichiometries sample_smact (oxidation_state_combinations [1, -1, -2] 2))"]
  have r1: "\<exists>r. count_round sample_config rev sample_hydrides [1, -1, -2] 2 = Some r"
    by (rule mp [OF conjunct1 [OF t1]]) (intro conjI i1 i2)
  have r2: "combination_count sample_smact 2 div count_progress_interval shipped_config = 0
     \<and> count_batch
         (batch_count shipped_config rev sample_smact 2
            (neutral_stoichiometries sample_smact (oxidation_state_combinations [1, -1, -2] 2)))
         (combination_count sample_smact 2)
         (combination_count sample_smact 2 div count_progress_interval shipped_config)
         (0, 0, combination_generator sample_smact 2)
       = (case batch_count shipped_config rev sample_smact 2
            (neutral_stoichiometries sample_smact (oxidation_state_combinations [1, -1, -2] 2)) [] of
            Inl e \<Rightarrow> Inl e
          | Inr s \<Rightarrow> Inr (0, 0 + s, combination_generator sample_smact 2))"
    by (rule mp [OF conjunct2 [OF t2]]) (intro conjI p s)
  have r3: "count_batch
         (batch_count shipped_config rev sample_smact 2
            (neutral_stoichiometries sample_smact (oxidation_state_combinations [1, -1, -2] 2)))
         (combination_count sample_smact 2)
         (combination_count sample_smact 2 div count_progress_interval shipped_config)
         (0, 0, combination_generator sample_smact 2)
       = Inr (0, 0, combination_generator sample_smact 2)"
    using conjunct2 [OF r2] by (simp only: b sum.case add_0)
  show ?thesis
    by (intro conjI i1 i2 r1 p s conjunct1 [OF r2] r3)
qed

subsection \<open>The lattice search\<close>

text \<open>
  C8. When no site assignment satisfies charge neutrality, \<^verbatim>\<open>possible_compositions\<close> returns
  an empty list rather than raising, for every crystal and element dictionary. The code does
  not for a crystal of five sites: with sodium as the only candidate of each of five sites no
  assignment is neutral, neither by the exact sum of the charges nor by the test of the code
  on the array of the charges, and the search raises \<open>NameError\<close> at
  \<^verbatim>\<open>crystal_site_ratios\<close>.
\<close>

theorem five_site_crystal_raises_name_error:
  "[ss \<leftarrow> product_lists (site_candidates five_cations sample_elements).
      charge_of sample_elements (site_ratios five_cations) ss = Some 0] = []
   \<and> [ss \<leftarrow> product_lists (site_candidates five_cations sample_elements).
      float_neutral small_numpy sample_elements (site_ratios five_cations) ss] = []
   \<and> possible_compositions small_numpy five_cations sample_elements = Inl NameError"
  by code_simp

text \<open>
  C10, as the claim states it, fails: in a crystal of two sites with the oxidation states
  +1 and -1 and the ratios 1 and 1, magnesium and oxygen are one element per site with the
  charges 2 and -2, whose sum is zero, also as the code would test it on the array of the
  charges, and the list is not returned.
\<close>

theorem neutral_list_not_returned_counterexample:
  "length [''Mg'', ''O''] = length (sites rock_salt)
   \<and> charge_of sample_elements (site_ratios rock_salt) [''Mg'', ''O''] = Some 0
   \<and> float_neutral small_numpy sample_elements (site_ratios rock_salt) [''Mg'', ''O'']
   \<and> possible_compositions small_numpy rock_salt sample_elements = Inr [[''Na'', ''Cl'']]"
  by code_simp

text \<open>
  C10, amended. For every crystal of one to four sites with an oxidation list for each site,
  and when the charge of every candidate of every site (the oxidation state of the element
  times the ratio of the site) is computed and stored in the float64 array without an
  exception, \<^verbatim>\<open>possible_compositions\<close> returns exactly the lists of elements, one per site in
  site order and each one of the elements whose oxidation state is among the oxidation states
  of its site, for which the test \<^verbatim>\<open>np.sum(charges) == 0\<close> holds of the array of their stored
  charges, in the order of the nested loops; every returned list has one entry per site. If
  moreover numpy stores an integer of a magnitude up to \<open>B\<close> unrounded and sums integers of a
  total magnitude up to \<open>B\<close> exactly (as doubles do for \<open>B = 2 ^ 53\<close>), the site ratios are
  integers and the charges of every such list have a total magnitude of at most \<open>B\<close>, then
  these are the lists for which the sum over the sites of oxidation state times site ratio is
  zero.
\<close>

theorem possible_compositions_neutral_candidates:
  assumes "1 \<le> length (sites crystal)" and "length (sites crystal) \<le> 4"
    and "length (sites crystal) \<le> length (site_oxidations crystal)"
    and "charges_fit np crystal elements"
  shows "possible_compositions np crystal elements =
           Inr [ss \<leftarrow> product_lists (site_candidates crystal elements).
                  float_neutral np elements (site_ratios crystal) ss]
         \<and> (\<forall>ss \<in> set [ss \<leftarrow> product_lists (site_candidates crystal elements).
                           float_neutral np elements (site_ratios crystal) ss].
               length ss = length (sites crystal))
         \<and> ((\<forall>i. \<bar>i\<bar> \<le> B \<longrightarrow> float64_of_int np i = Some (repr i))
            \<and> (\<forall>is. sum_list (map abs is) \<le> B
                  \<longrightarrow> sum_equals_zero np (map repr is) = (sum_list is = 0))
            \<and> within_exact_range B crystal elements
            \<longrightarrow> possible_compositions np crystal elements =
                  Inr [ss \<leftarrow> product_lists (site_candidates crystal elements).
                         charge_of elements (site_ratios crystal) ss = Some 0])"
proof (intro conjI impI)
  show r: "possible_compositions np crystal elements =
           Inr [ss \<leftarrow> product_lists (site_candidates crystal elements).
                  float_neutral np elements (site_ratios crystal) ss]"
    by (rule possible_compositions_char [OF assms])
  have "length (site_candidates crystal elements) = length (sites crystal)"
    using assms(3) by (simp add: site_candidates_def)
  then have "\<forall>ss \<in> set (product_lists (site_candidates crystal elements)).
      length ss = length (sites crystal)"
    using in_set_product_lists_length by fastforce
  then show "\<forall>ss \<in> set [ss \<leftarrow> product_lists (site_candidates crystal elements).
                           float_neutral np elements (site_ratios crystal) ss].
               length ss = length (sites crystal)"
    by simp
  assume e: "(\<forall>i. \<bar>i\<bar> \<le> B \<longrightarrow> float64_of_int np i = Some (repr i))
            \<and> (\<forall>is. sum_list (map abs is) \<le> B
                  \<longrightarrow> sum_equals_zero np (map repr is) = (sum_list is = 0))
            \<and> within_exact_range B crystal elements"
  have "[ss \<leftarrow> product_lists (site_candidates crystal elements).
                  float_neutral np elements (site_ratios crystal) ss]
      = [ss \<leftarrow> product_lists (site_candidates crystal elements).
                  charge_of elements (site_ratios crystal) ss = Some 0]"
  proof (rule filter_cong [OF refl])
    fix ss
    assume "ss \<in> set (product_lists (site_candidates crystal elements))"
    then show "float_neutral np elements (site_ratios crystal) ss
           = (charge_of elements (site_ratios crystal) ss = Some 0)"
      using e by (intro float_neutral_exact [of B np repr]) simp_all
  qed
  then show "possible_compositions np crystal elements =
                  Inr [ss \<leftarrow> product_lists (site_candidates crystal elements).
                         charge_of elements (site_ratios crystal) ss = Some 0]"
    using r by simp
qed

theorem possible_compositions_neutral_candidates_witness:
  "1 \<le> length (sites rock_salt) \<and> length (sites rock_salt) \<le> 4
   \<and> length (sites rock_salt) \<le> length (site_oxidations rock_salt)
   \<and> charges_fit small_numpy rock_salt sample_elements
   \<and> float64_of_int small_numpy = Some
   \<and> sum_equals_zero small_numpy = (\<lambda>charges. sum_list charges = 0)
   \<and> within_exact_range (2 ^ 53) rock_salt sample_elements
   \<and> possible_compositions small_numpy rock_salt sample_elements =
       Inr [ss \<leftarrow> product_lists (site_candidates rock_salt sample_elements).
              float_neutral small_numpy sample_elements (site_ratios rock_salt) ss]
   \<and> list_all (\<lambda>ss. length ss = length (sites rock_salt))
         [ss \<leftarrow> product_lists (site_candidates rock_salt sample_elements).
            float_neutral small_numpy sample_elements (site_ratios rock_salt) ss]
   \<and> possible_compositions small_numpy rock_salt sample_elements =
       Inr [ss \<leftarrow> product_lists (site_candidates rock_salt sample_elements).
              charge_of sample_elements (site_ratios rock_salt) ss = Some 0]
   \<and> [ss \<leftarrow> product_lists (site_candidates rock_salt sample_elements).
              charge_of sample_elements (site_ratios rock_salt) ss = Some 0] = [[''Na'', ''Cl'']]"
proof -
  have h1: "1 \<le> length (sites rock_salt)" by (simp add: rock_salt_def)
  have h2: "length (sites rock_salt) \<le> 4" by (simp add: rock_salt_def)
  have h3: "length (sites rock_salt) \<le> length (site_oxidations rock_salt)"
    by (simp add: rock_salt_def)
  have h4: "charges_fit small_numpy rock_salt sample_elements" by code_simp
  have f1: "float64_of_int small_numpy = Some" by (simp add: small_numpy_def)
  have f2: "sum_equals_zero small_numpy = (\<lambda>charges. sum_list charges = 0)"
    by (simp add: small_numpy_def)
  have e1: "\<forall>i. \<bar>i\<bar> \<le> 2 ^ 53 \<longrightarrow> float64_of_int small_numpy i = Some i"
    by (simp add: f1)
  have e2: "\<forall>is. sum_list (map abs is) \<le> 2 ^ 53
         \<longrightarrow> sum_equals_zero small_numpy (map (\<lambda>i. i) is) = (sum_list is = 0)"
    by (simp add: f2)
  have e3: "within_exact_range (2 ^ 53) rock_salt sample_elements" by code_simp
  have v: "[ss \<leftarrow> product_lists (site_candidates rock_salt sample_elements).
              charge_of sample_elements (site_ratios rock_salt) ss = Some 0] = [[''Na'', ''Cl'']]"
    by code_simp
  note t = possible_compositions_neutral_candidates
    [OF h1 h2 h3 h4, of "2 ^ 53" "\<lambda>i. i"]
  have c1: "possible_compositions small_numpy rock_salt sample_elements =
       Inr [ss \<leftarrow> product_lists (site_candidates rock_salt sample_elements).
              float_neutral small_numpy sample_elements (site_ratios rock_salt) ss]"
    by (rule conjunct1 [OF t])
  have "\<forall>ss \<in> set [ss \<leftarrow> product_lists (site_candidates rock_salt sample_elements).
                     float_neutral small_numpy sample_elements (site_ratios rock_salt) ss].
         length ss = length (sites rock_salt)"
    by (rule conjunct1 [OF conjunct2 [OF t]])
  then have c2: "list_all (\<lambda>ss. length ss = length (sites rock_salt))
         [ss \<leftarrow> product_lists (site_candidates rock_salt sample_elements).
            float_neutral small_numpy sample_elements (site_ratios rock_salt) ss]"
    by (simp only: list_all_iff)
  have c3: "possible_compositions small_numpy rock_salt sample_elements =
       Inr [ss \<leftarrow> product_lists (site_candidates rock_salt sample_elements).
              charge_of sample_elements (site_ratios rock_salt) ss = Some 0]"
    by (rule mp [OF conjunct2 [OF conjunct2 [OF t]]]) (intro conjI e1 e2 e3)
  show ?thesis
    by (intro conjI h1 h2 h3 h4 f1 f2 e3 c1 c2 c3 v)
qed

subsection \<open>The selector of the electronegativity scale\<close>



end
